theory Spec2Isabelle
  imports Main "HOL-Library.FSet"
begin

section \<open>YipBox: the signal/slot registry of YipBox.h\<close>

text \<open>
  The header defines receivers (\<open>HasSlots\<close>), emitters (\<open>SignalBaseTyped\<close> and its
  subclass \<open>SignalSpecific\<close>) and the bindings between them (\<open>Connection\<close>). Objects
  refer to each other by raw pointers, so the model keeps an explicit store: a pointer is
  an address (a natural number), and the store maps the addresses of the live receivers
  and of the live signals to their fields. Dereferencing a pointer to an object that is
  not live is undefined behaviour in C++; the model returns a \<open>fault\<close> there.

  The locking policy is \<open>SingleThreaded\<close>: \<open>lock\<close> and \<open>unlock\<close> are empty, and a
  \<open>LockBlock\<close> has no effect. Every operation below is the sequential behaviour of
  the member function of the same name, with \<open>this\<close> as its first argument and the store
  as its last.

  A receiver is an object of some class \<open>Destination\<close> that has \<open>HasSlots\<close> as a base.
  The store knows a receiver by the address of its \<open>HasSlots\<close> base, and a pointer to a
  receiver object is represented everywhere by the address of the \<open>HasSlots\<close> base it
  leads to: for a \<open>Destination*\<close> that is the value of the implicit upcast, which is what
  \<open>getDestination\<close> returns. The receiver classes are not part of the header, so the
  offset of the \<open>HasSlots\<close> base within \<open>Destination\<close> is a parameter, \<open>baseOffset\<close>,
  of the one operation that depends on it (\<open>Connection::duplicate\<close>); it is given for a
  member function pointer, whose type names the class.

  Outside the model: the two multi-threaded policies, and the assignment operators, which
  the header does not define.
\<close>

subsection \<open>Data\<close>

text \<open>
  \<open>Connection\<close>: the receiver pointer \<open>object\<close>, represented by the address of the
  \<open>HasSlots\<close> base it leads to, and the member function pointer \<open>function\<close> (named
  \<open>functionPtr\<close> here, \<open>function\<close> being a keyword).
\<close>

record Connection =
  object :: nat
  functionPtr :: nat

text \<open>\<open>HasSlots\<close>: \<open>std::set<SignalBase*> senders\<close> and \<open>bool active\<close>.\<close>

record HasSlots =
  senders :: "nat fset"
  active :: bool

text \<open>\<open>SignalBaseTyped\<close>: \<open>std::list<ConnectionBase*> connectedSlots\<close>.\<close>

record SignalBaseTyped =
  connectedSlots :: "Connection list"

record world =
  receivers :: "nat \<Rightarrow> HasSlots option"
  signals :: "nat \<Rightarrow> SignalBaseTyped option"

datatype fault = DeadReceiver nat | DeadSignal nat

definition empty_world :: world where
  "empty_world = \<lparr>receivers = Map.empty, signals = Map.empty\<rparr>"

text \<open>Access to the fields of the object a pointer refers to.\<close>

definition with_receiver :: "nat \<Rightarrow> (HasSlots \<Rightarrow> HasSlots) \<Rightarrow> world \<Rightarrow> fault + world" where
  "with_receiver p f w =
     (case receivers w p of
        None \<Rightarrow> Inl (DeadReceiver p)
      | Some h \<Rightarrow> Inr (w\<lparr>receivers := (receivers w)(p \<mapsto> f h)\<rparr>))"

definition with_signal :: "nat \<Rightarrow> (SignalBaseTyped \<Rightarrow> SignalBaseTyped) \<Rightarrow> world \<Rightarrow> fault + world" where
  "with_signal p f w =
     (case signals w p of
        None \<Rightarrow> Inl (DeadSignal p)
      | Some sg \<Rightarrow> Inr (w\<lparr>signals := (signals w)(p \<mapsto> f sg)\<rparr>))"

subsection \<open>Connection\<close>

definition getDestination :: "Connection \<Rightarrow> nat" where
  "getDestination c = object c"

definition clone :: "Connection \<Rightarrow> Connection" where
  "clone c = \<lparr>object = object c, functionPtr = functionPtr c\<rparr>"

text \<open>
  \<open>duplicate\<close> builds its binding from \<open>reinterpret_cast<Destination*>(newDestination)\<close>:
  the address of a \<open>HasSlots\<close> base taken, unchanged, for the address of a
  \<open>Destination\<close>. The \<open>HasSlots\<close> base that this pointer leads to lies \<open>baseOffset\<close>
  further; it is the receiver \<open>newDestination\<close> only when the offset is 0.
\<close>

definition duplicate :: "(nat \<Rightarrow> nat) \<Rightarrow> Connection \<Rightarrow> nat \<Rightarrow> Connection" where
  "duplicate baseOffset c newDestination =
     \<lparr>object = newDestination + baseOffset (functionPtr c), functionPtr = functionPtr c\<rparr>"

subsection \<open>HasSlots\<close>

text \<open>The default constructor, building the object at address \<open>this\<close>.\<close>

definition HasSlots_new :: "nat \<Rightarrow> world \<Rightarrow> world" where
  "HasSlots_new this w =
     w\<lparr>receivers := (receivers w)(this \<mapsto> \<lparr>senders = {||}, active = True\<rparr>)\<rparr>"

definition signalConnect :: "nat \<Rightarrow> nat \<Rightarrow> world \<Rightarrow> fault + world" where
  "signalConnect this sender w =
     with_receiver this (\<lambda>h. h\<lparr>senders := finsert sender (senders h)\<rparr>) w"

definition signalDisconnect :: "nat \<Rightarrow> nat \<Rightarrow> world \<Rightarrow> fault + world" where
  "signalDisconnect this sender w =
     with_receiver this (\<lambda>h. h\<lparr>senders := senders h |-| {|sender|}\<rparr>) w"

definition isActive :: "nat \<Rightarrow> world \<Rightarrow> fault + bool" where
  "isActive this w =
     (case receivers w this of None \<Rightarrow> Inl (DeadReceiver this) | Some h \<Rightarrow> Inr (active h))"

definition setActive :: "nat \<Rightarrow> bool \<Rightarrow> world \<Rightarrow> fault + world" where
  "setActive this newActive w = with_receiver this (\<lambda>h. h\<lparr>active := newActive\<rparr>) w"

subsection \<open>SignalBaseTyped\<close>

definition SignalBaseTyped_new :: "nat \<Rightarrow> world \<Rightarrow> world" where
  "SignalBaseTyped_new this w =
     w\<lparr>signals := (signals w)(this \<mapsto> \<lparr>connectedSlots = []\<rparr>)\<rparr>"

text \<open>
  \<open>disconnectSlot\<close>: the \<open>while\<close> loop erases every binding whose destination is
  \<open>slot\<close> and tells nobody.
\<close>

fun disconnectSlot_loop :: "nat \<Rightarrow> Connection list \<Rightarrow> Connection list" where
  "disconnectSlot_loop slot [] = []"
| "disconnectSlot_loop slot (c # cs) =
     (if getDestination c = slot then disconnectSlot_loop slot cs
      else c # disconnectSlot_loop slot cs)"

definition disconnectSlot :: "nat \<Rightarrow> nat \<Rightarrow> world \<Rightarrow> fault + world" where
  "disconnectSlot this slot w =
     with_signal this (\<lambda>sg. sg\<lparr>connectedSlots := disconnectSlot_loop slot (connectedSlots sg)\<rparr>) w"

text \<open>
  \<open>disconnect\<close>: the same loop, which also calls \<open>item->signalDisconnect(this)\<close> after
  each erasure. The loop returns the bindings it kept together with the store, where
  only receivers have changed; \<open>disconnect\<close> writes the kept bindings back.
\<close>

fun disconnect_loop :: "nat \<Rightarrow> nat \<Rightarrow> Connection list \<Rightarrow> world \<Rightarrow> fault + (Connection list \<times> world)" where
  "disconnect_loop this item [] w = Inr ([], w)"
| "disconnect_loop this item (c # cs) w =
     (if getDestination c = item then
        (case signalDisconnect item this w of
           Inl e \<Rightarrow> Inl e
         | Inr w1 \<Rightarrow> disconnect_loop this item cs w1)
      else
        (case disconnect_loop this item cs w of
           Inl e \<Rightarrow> Inl e
         | Inr (kept, w1) \<Rightarrow> Inr (c # kept, w1)))"

definition disconnect :: "nat \<Rightarrow> nat \<Rightarrow> world \<Rightarrow> fault + world" where
  "disconnect this item w =
     (case signals w this of
        None \<Rightarrow> Inl (DeadSignal this)
      | Some sg \<Rightarrow>
          (case disconnect_loop this item (connectedSlots sg) w of
             Inl e \<Rightarrow> Inl e
           | Inr (kept, w1) \<Rightarrow> with_signal this (\<lambda>sg. sg\<lparr>connectedSlots := kept\<rparr>) w1))"

text \<open>
  The loop shared, word for word, by \<open>SignalBaseTyped::disconnectAll\<close> and the
  destructor: every binding's receiver is told to forget this signal.
\<close>

fun SignalBaseTyped_disconnectAll_loop :: "nat \<Rightarrow> Connection list \<Rightarrow> world \<Rightarrow> fault + world" where
  "SignalBaseTyped_disconnectAll_loop this [] w = Inr w"
| "SignalBaseTyped_disconnectAll_loop this (c # cs) w =
     (case signalDisconnect (getDestination c) this w of
        Inl e \<Rightarrow> Inl e
      | Inr w1 \<Rightarrow> SignalBaseTyped_disconnectAll_loop this cs w1)"

definition SignalBaseTyped_disconnectAll :: "nat \<Rightarrow> world \<Rightarrow> fault + world" where
  "SignalBaseTyped_disconnectAll this w =
     (case signals w this of
        None \<Rightarrow> Inl (DeadSignal this)
      | Some sg \<Rightarrow>
          (case SignalBaseTyped_disconnectAll_loop this (connectedSlots sg) w of
             Inl e \<Rightarrow> Inl e
           | Inr w1 \<Rightarrow> with_signal this (\<lambda>sg. sg\<lparr>connectedSlots := []\<rparr>) w1))"

text \<open>The destructor; afterwards no object lives at \<open>this\<close>.\<close>

definition SignalBaseTyped_destroy :: "nat \<Rightarrow> world \<Rightarrow> fault + world" where
  "SignalBaseTyped_destroy this w =
     (case signals w this of
        None \<Rightarrow> Inl (DeadSignal this)
      | Some sg \<Rightarrow>
          (case SignalBaseTyped_disconnectAll_loop this (connectedSlots sg) w of
             Inl e \<Rightarrow> Inl e
           | Inr w1 \<Rightarrow> Inr (w1\<lparr>signals := (signals w1)(this := None)\<rparr>)))"

text \<open>
  The copy constructor, building the copy at address \<open>this\<close>: for each binding of
  \<open>src\<close>, the receiver records the new signal and the binding is cloned at the end of
  the new list.
\<close>

fun SignalBaseTyped_copy_loop :: "nat \<Rightarrow> Connection list \<Rightarrow> world \<Rightarrow> fault + world" where
  "SignalBaseTyped_copy_loop this [] w = Inr w"
| "SignalBaseTyped_copy_loop this (c # cs) w =
     (case signalConnect (getDestination c) this w of
        Inl e \<Rightarrow> Inl e
      | Inr w1 \<Rightarrow>
          (case with_signal this (\<lambda>sg. sg\<lparr>connectedSlots := connectedSlots sg @ [clone c]\<rparr>) w1 of
             Inl e \<Rightarrow> Inl e
           | Inr w2 \<Rightarrow> SignalBaseTyped_copy_loop this cs w2))"

definition SignalBaseTyped_copy :: "nat \<Rightarrow> nat \<Rightarrow> world \<Rightarrow> fault + world" where
  "SignalBaseTyped_copy src this w =
     (case signals w src of
        None \<Rightarrow> Inl (DeadSignal src)
      | Some sg \<Rightarrow>
          SignalBaseTyped_copy_loop this (connectedSlots sg)
            (w\<lparr>signals := (signals w)(this \<mapsto> \<lparr>connectedSlots = []\<rparr>)\<rparr>))"

text \<open>
  \<open>duplicateSlot\<close>: the \<open>for\<close> loop walks the list with an iterator and compares it
  with \<open>end()\<close> on every round, while \<open>push_back\<close> makes the list longer; so the
  bindings it appends are visited too. The iterator is the index \<open>i\<close>. The loop need not
  end (it does not when a binding matches and the copies lead to \<open>oldTarget\<close> again), so
  it is a partial function, \<open>None\<close> standing for a loop that never returns.
\<close>

partial_function (option) duplicateSlot_loop :: "(nat \<Rightarrow> nat) \<Rightarrow> nat \<Rightarrow> nat \<Rightarrow> nat \<Rightarrow> Connection list \<Rightarrow> Connection list option" where
  "duplicateSlot_loop baseOffset oldTarget newTarget i cs =
     (if i < length cs then
        (if getDestination (cs ! i) = oldTarget
         then duplicateSlot_loop baseOffset oldTarget newTarget (Suc i)
                (cs @ [duplicate baseOffset (cs ! i) newTarget])
         else duplicateSlot_loop baseOffset oldTarget newTarget (Suc i) cs)
      else Some cs)"

definition duplicateSlot :: "(nat \<Rightarrow> nat) \<Rightarrow> nat \<Rightarrow> nat \<Rightarrow> nat \<Rightarrow> world \<Rightarrow> (fault + world) option" where
  "duplicateSlot baseOffset this oldTarget newTarget w =
     (case signals w this of
        None \<Rightarrow> Some (Inl (DeadSignal this))
      | Some sg \<Rightarrow>
          (case duplicateSlot_loop baseOffset oldTarget newTarget 0 (connectedSlots sg) of
             None \<Rightarrow> None
           | Some cs \<Rightarrow> Some (Inr (w\<lparr>signals := (signals w)(this \<mapsto> sg\<lparr>connectedSlots := cs\<rparr>)\<rparr>))))"

subsection \<open>HasSlots, continued: the operations that call into signals\<close>

text \<open>
  \<open>HasSlots::disconnectAll\<close> walks \<open>senders\<close>, a \<open>std::set\<close> of pointers, in
  ascending order, then clears it.
\<close>

fun HasSlots_disconnectAll_loop :: "nat \<Rightarrow> nat list \<Rightarrow> world \<Rightarrow> fault + world" where
  "HasSlots_disconnectAll_loop this [] w = Inr w"
| "HasSlots_disconnectAll_loop this (s # ss) w =
     (case disconnectSlot s this w of
        Inl e \<Rightarrow> Inl e
      | Inr w1 \<Rightarrow> HasSlots_disconnectAll_loop this ss w1)"

definition HasSlots_disconnectAll :: "nat \<Rightarrow> world \<Rightarrow> fault + world" where
  "HasSlots_disconnectAll this w =
     (case receivers w this of
        None \<Rightarrow> Inl (DeadReceiver this)
      | Some h \<Rightarrow>
          (case HasSlots_disconnectAll_loop this (sorted_list_of_fset (senders h)) w of
             Inl e \<Rightarrow> Inl e
           | Inr w1 \<Rightarrow> with_receiver this (\<lambda>h. h\<lparr>senders := {||}\<rparr>) w1))"

text \<open>The destructor calls \<open>disconnectAll\<close>; afterwards no object lives at \<open>this\<close>.\<close>

definition HasSlots_destroy :: "nat \<Rightarrow> world \<Rightarrow> fault + world" where
  "HasSlots_destroy this w =
     (case HasSlots_disconnectAll this w of
        Inl e \<Rightarrow> Inl e
      | Inr w1 \<Rightarrow> Inr (w1\<lparr>receivers := (receivers w1)(this := None)\<rparr>))"

text \<open>
  The copy constructor, building the copy at address \<open>this\<close> with an empty \<open>senders\<close>
  and the flag of \<open>src\<close>; then, for each sender of \<open>src\<close>, \<open>duplicateSlot(&src, this)\<close>
  and \<open>senders.insert\<close>. The result is \<open>None\<close> when a \<open>duplicateSlot\<close> never returns.
\<close>

fun HasSlots_copy_loop :: "(nat \<Rightarrow> nat) \<Rightarrow> nat \<Rightarrow> nat \<Rightarrow> nat list \<Rightarrow> world \<Rightarrow> (fault + world) option" where
  "HasSlots_copy_loop baseOffset src this [] w = Some (Inr w)"
| "HasSlots_copy_loop baseOffset src this (s # ss) w =
     (case duplicateSlot baseOffset s src this w of
        None \<Rightarrow> None
      | Some (Inl e) \<Rightarrow> Some (Inl e)
      | Some (Inr w1) \<Rightarrow>
          (case with_receiver this (\<lambda>h. h\<lparr>senders := finsert s (senders h)\<rparr>) w1 of
             Inl e \<Rightarrow> Some (Inl e)
           | Inr w2 \<Rightarrow> HasSlots_copy_loop baseOffset src this ss w2))"

definition HasSlots_copy :: "(nat \<Rightarrow> nat) \<Rightarrow> nat \<Rightarrow> nat \<Rightarrow> world \<Rightarrow> (fault + world) option" where
  "HasSlots_copy baseOffset src this w =
     (case receivers w src of
        None \<Rightarrow> Some (Inl (DeadReceiver src))
      | Some h \<Rightarrow>
          HasSlots_copy_loop baseOffset src this (sorted_list_of_fset (senders h))
            (w\<lparr>receivers := (receivers w)(this \<mapsto> \<lparr>senders = {||}, active = active h\<rparr>)\<rparr>))"

subsection \<open>SignalSpecific\<close>

definition connect :: "nat \<Rightarrow> nat \<Rightarrow> nat \<Rightarrow> world \<Rightarrow> fault + world" where
  "connect this obj fn w =
     (case with_signal this
             (\<lambda>sg. sg\<lparr>connectedSlots := connectedSlots sg @ [\<lparr>object = obj, functionPtr = fn\<rparr>]\<rparr>) w of
        Inl e \<Rightarrow> Inl e
      | Inr w1 \<Rightarrow> signalConnect obj this w1)"

text \<open>
  \<open>shoot\<close> calls member functions of the receivers. What a member function does is not
  part of the header, so it is a parameter: \<open>run obj fn args u\<close> is the call
  \<open>(obj->*fn)(args...)\<close> started in the program state \<open>u\<close>, which returns with a new
  state or throws. A slot acts on \<open>u\<close> only: it does not change connections or flags
  while the signal is being emitted. The result of \<open>shoot\<close> is the store after the call,
  the calls made in order (each a receiver and a member function), and how it ended.
\<close>

datatype ('e, 'u) outcome = Returned 'u | Threw 'e | Undefined fault

fun shoot_loop :: "(nat \<Rightarrow> nat \<Rightarrow> 'a \<Rightarrow> 'u \<Rightarrow> 'e + 'u) \<Rightarrow> 'a \<Rightarrow> Connection list \<Rightarrow> world \<Rightarrow> 'u
    \<Rightarrow> (nat \<times> nat) list \<times> ('e, 'u) outcome" where
  "shoot_loop run args [] w u = ([], Returned u)"
| "shoot_loop run args (c # cs) w u =
     (case isActive (getDestination c) w of
        Inl e \<Rightarrow> ([], Undefined e)
      | Inr a \<Rightarrow>
          if a then
            (case run (object c) (functionPtr c) args u of
               Inl e \<Rightarrow> ([(object c, functionPtr c)], Threw e)
             | Inr u1 \<Rightarrow>
                 (case shoot_loop run args cs w u1 of
                    (calls, r) \<Rightarrow> ((object c, functionPtr c) # calls, r)))
          else shoot_loop run args cs w u)"

definition shoot :: "(nat \<Rightarrow> nat \<Rightarrow> 'a \<Rightarrow> 'u \<Rightarrow> 'e + 'u) \<Rightarrow> nat \<Rightarrow> 'a \<Rightarrow> world \<Rightarrow> 'u
    \<Rightarrow> world \<times> (nat \<times> nat) list \<times> ('e, 'u) outcome" where
  "shoot run this args w u =
     (case signals w this of
        None \<Rightarrow> (w, [], Undefined (DeadSignal this))
      | Some sg \<Rightarrow> (w, shoot_loop run args (connectedSlots sg) w u))"

section \<open>Vocabulary of the properties\<close>

text \<open>
  The definitions of this section are not code of the header: they name what the
  properties below speak about.
\<close>

subsection \<open>The effect of one call on one object\<close>

text \<open>
  What \<open>disconnectSlot(r)\<close> does to a signal, and what \<open>signalDisconnect(s)\<close> and
  \<open>signalConnect(s)\<close> do to a receiver.
\<close>

definition strip :: "nat \<Rightarrow> SignalBaseTyped \<Rightarrow> SignalBaseTyped" where
  "strip r sg = sg\<lparr>connectedSlots := filter (\<lambda>c. getDestination c \<noteq> r) (connectedSlots sg)\<rparr>"

definition forget :: "nat \<Rightarrow> HasSlots \<Rightarrow> HasSlots" where
  "forget s h = h\<lparr>senders := senders h |-| {|s|}\<rparr>"

definition remember :: "nat \<Rightarrow> HasSlots \<Rightarrow> HasSlots" where
  "remember s h = h\<lparr>senders := finsert s (senders h)\<rparr>"

text \<open>
  What \<open>duplicateSlot(oldTarget, newTarget)\<close> does to a signal when it returns: the
  bindings to \<open>oldTarget\<close>, retargeted, are appended in their order.
\<close>

definition duplicated :: "(nat \<Rightarrow> nat) \<Rightarrow> nat \<Rightarrow> nat \<Rightarrow> SignalBaseTyped \<Rightarrow> SignalBaseTyped" where
  "duplicated baseOffset oldTarget newTarget sg =
     sg\<lparr>connectedSlots := connectedSlots sg @
          map (\<lambda>c. duplicate baseOffset c newTarget)
            (filter (\<lambda>c. getDestination c = oldTarget) (connectedSlots sg))\<rparr>"

text \<open>
  The loop of \<open>duplicateSlot\<close> returns when no copy of a binding to \<open>oldTarget\<close> leads
  to \<open>oldTarget\<close> again.
\<close>

definition copies_miss :: "(nat \<Rightarrow> nat) \<Rightarrow> nat \<Rightarrow> nat \<Rightarrow> Connection list \<Rightarrow> bool" where
  "copies_miss baseOffset oldTarget newTarget cs \<longleftrightarrow>
     (\<forall>c\<in>set cs. getDestination c = oldTarget \<longrightarrow>
        newTarget + baseOffset (functionPtr c) \<noteq> oldTarget)"

text \<open>
  Every binding to the receiver \<open>r\<close> was made for a class that has its \<open>HasSlots\<close> base
  at offset 0.
\<close>

definition base_first :: "(nat \<Rightarrow> nat) \<Rightarrow> world \<Rightarrow> nat \<Rightarrow> bool" where
  "base_first baseOffset w r \<longleftrightarrow>
     (\<forall>s sg. signals w s = Some sg \<longrightarrow>
        (\<forall>c\<in>set (connectedSlots sg). getDestination c = r \<longrightarrow>
           baseOffset (functionPtr c) = 0))"

subsection \<open>Bindings, calls and slots\<close>

text \<open>A binding as the pair of receiver and member function that a call of it shows.\<close>

definition call :: "Connection \<Rightarrow> nat \<times> nat" where
  "call c = (object c, functionPtr c)"

definition binding :: "nat \<times> nat \<Rightarrow> Connection" where
  "binding p = \<lparr>object = fst p, functionPtr = snd p\<rparr>"

text \<open>The bindings an emit delivers to: those whose receiver is live and active.\<close>

definition eligible :: "world \<Rightarrow> Connection list \<Rightarrow> Connection list" where
  "eligible w cs = filter (\<lambda>c. isActive (getDestination c) w = Inr True) cs"

text \<open>Every binding of the list points to a live receiver.\<close>

definition dests_live :: "world \<Rightarrow> Connection list \<Rightarrow> bool" where
  "dests_live w cs \<longleftrightarrow> (\<forall>c\<in>set cs. receivers w (getDestination c) \<noteq> None)"

text \<open>Every receiver of the list is live and active.\<close>

definition all_active :: "world \<Rightarrow> nat list \<Rightarrow> bool" where
  "all_active w rs \<longleftrightarrow> list_all (\<lambda>r. isActive r w = Inr True) rs"

text \<open>No slot throws when called with \<open>args\<close>.\<close>

definition quiet :: "(nat \<Rightarrow> nat \<Rightarrow> 'a \<Rightarrow> 'u \<Rightarrow> 'e + 'u) \<Rightarrow> 'a \<Rightarrow> bool" where
  "quiet run args \<longleftrightarrow> (\<forall>obj fn u. \<exists>u'. run obj fn args u = Inr u')"

text \<open>The slots of a list of bindings called one after the other, up to the first throw.\<close>

fun run_all :: "(nat \<Rightarrow> nat \<Rightarrow> 'a \<Rightarrow> 'u \<Rightarrow> 'e + 'u) \<Rightarrow> 'a \<Rightarrow> Connection list \<Rightarrow> 'u \<Rightarrow> 'e + 'u" where
  "run_all run args [] u = Inr u"
| "run_all run args (c # cs) u =
     (case run (object c) (functionPtr c) args u of
        Inl e \<Rightarrow> Inl e
      | Inr u1 \<Rightarrow> run_all run args cs u1)"

text \<open>A caller that connects a list of slots to one signal, in order.\<close>

fun connect_all :: "nat \<Rightarrow> (nat \<times> nat) list \<Rightarrow> world \<Rightarrow> fault + world" where
  "connect_all this [] w = Inr w"
| "connect_all this (p # ps) w =
     (case connect this (fst p) (snd p) w of
        Inl e \<Rightarrow> Inl e
      | Inr w1 \<Rightarrow> connect_all this ps w1)"

subsection \<open>Agreement of the two registries\<close>

text \<open>
  The two registries agree: every binding of a live signal points to a live receiver
  that has the signal among its \<open>senders\<close>, and every sender of a live receiver is a live
  signal with a binding to that receiver.
\<close>

definition consistent :: "world \<Rightarrow> bool" where
  "consistent w \<longleftrightarrow>
     (\<forall>s sg. signals w s = Some sg \<longrightarrow>
        (\<forall>c\<in>set (connectedSlots sg).
           \<exists>h. receivers w (getDestination c) = Some h \<and> s |\<in>| senders h)) \<and>
     (\<forall>r h. receivers w r = Some h \<longrightarrow>
        (\<forall>s. s |\<in>| senders h \<longrightarrow>
           (\<exists>sg. signals w s = Some sg \<and> r \<in> getDestination ` set (connectedSlots sg))))"

text \<open>
  The stores a program can reach with the operations of the header, every object being
  constructed at an address where no object of its kind lives, and every receiver class
  having its \<open>HasSlots\<close> base at offset 0.
\<close>

inductive reachable :: "world \<Rightarrow> bool" where
  start: "reachable empty_world"
| new_receiver: "reachable w \<Longrightarrow> receivers w r = None \<Longrightarrow> reachable (HasSlots_new r w)"
| new_signal: "reachable w \<Longrightarrow> signals w s = None \<Longrightarrow> reachable (SignalBaseTyped_new s w)"
| connected: "reachable w \<Longrightarrow> connect s r f w = Inr w' \<Longrightarrow> reachable w'"
| disconnected: "reachable w \<Longrightarrow> disconnect s r w = Inr w' \<Longrightarrow> reachable w'"
| flagged: "reachable w \<Longrightarrow> setActive r b w = Inr w' \<Longrightarrow> reachable w'"
| signal_cleared: "reachable w \<Longrightarrow> SignalBaseTyped_disconnectAll s w = Inr w' \<Longrightarrow> reachable w'"
| receiver_cleared: "reachable w \<Longrightarrow> HasSlots_disconnectAll r w = Inr w' \<Longrightarrow> reachable w'"
| signal_copied: "reachable w \<Longrightarrow> signals w this = None \<Longrightarrow>
    SignalBaseTyped_copy src this w = Inr w' \<Longrightarrow> reachable w'"
| receiver_copied: "reachable w \<Longrightarrow> receivers w this = None \<Longrightarrow>
    HasSlots_copy (\<lambda>fn. 0) src this w = Some (Inr w') \<Longrightarrow> reachable w'"
| signal_destroyed: "reachable w \<Longrightarrow> SignalBaseTyped_destroy s w = Inr w' \<Longrightarrow> reachable w'"
| receiver_destroyed: "reachable w \<Longrightarrow> HasSlots_destroy r w = Inr w' \<Longrightarrow> reachable w'"

subsection \<open>Removal with one notification\<close>

text \<open>
  The removals as the specification words them, for comparison with the code:
  \<open>disconnect_once\<close> removes every binding to \<open>item\<close> and notifies \<open>item\<close> exactly
  once when there was one; \<open>disconnectAll_once\<close> notifies each distinct receiver once
  and removes every binding.
\<close>

definition disconnect_once :: "nat \<Rightarrow> nat \<Rightarrow> world \<Rightarrow> fault + world" where
  "disconnect_once this item w =
     (case signals w this of
        None \<Rightarrow> Inl (DeadSignal this)
      | Some sg \<Rightarrow>
          if item \<in> getDestination ` set (connectedSlots sg) then
            (case signalDisconnect item this w of
               Inl e \<Rightarrow> Inl e
             | Inr w1 \<Rightarrow> with_signal this (strip item) w1)
          else Inr w)"

fun notify_each :: "nat \<Rightarrow> nat list \<Rightarrow> world \<Rightarrow> fault + world" where
  "notify_each this [] w = Inr w"
| "notify_each this (r # rs) w =
     (case signalDisconnect r this w of
        Inl e \<Rightarrow> Inl e
      | Inr w1 \<Rightarrow> notify_each this rs w1)"

definition disconnectAll_once :: "nat \<Rightarrow> world \<Rightarrow> fault + world" where
  "disconnectAll_once this w =
     (case signals w this of
        None \<Rightarrow> Inl (DeadSignal this)
      | Some sg \<Rightarrow>
          (case notify_each this (remdups (map getDestination (connectedSlots sg))) w of
             Inl e \<Rightarrow> Inl e
           | Inr w1 \<Rightarrow> with_signal this (\<lambda>sg. sg\<lparr>connectedSlots := []\<rparr>) w1))"

subsection \<open>Example programs\<close>

text \<open>Slots that append their receiver, member function and argument to a log.\<close>

definition log_run :: "nat \<Rightarrow> nat \<Rightarrow> nat \<Rightarrow> (nat \<times> nat \<times> nat) list \<Rightarrow> unit + (nat \<times> nat \<times> nat) list" where
  "log_run obj fn a u = Inr (u @ [(obj, fn, a)])"

text \<open>Slots that log like \<open>log_run\<close>, but member function 2 throws.\<close>

definition throwing_run :: "nat \<Rightarrow> nat \<Rightarrow> nat \<Rightarrow> (nat \<times> nat \<times> nat) list \<Rightarrow> string + (nat \<times> nat \<times> nat) list" where
  "throwing_run obj fn a u = (if fn = 2 then Inl ''slot failed'' else Inr (u @ [(obj, fn, a)]))"

text \<open>A signal at address 1 and receivers at 10, 11 and 12, all newly constructed.\<close>

definition three_receivers :: world where
  "three_receivers =
     HasSlots_new 12 (HasSlots_new 11 (HasSlots_new 10 (SignalBaseTyped_new 1 empty_world)))"

text \<open>The three receivers, each connected once to the signal.\<close>

definition wired :: world where
  "wired =
     \<lparr>receivers = [10 \<mapsto> \<lparr>senders = {|1|}, active = True\<rparr>,
                   11 \<mapsto> \<lparr>senders = {|1|}, active = True\<rparr>,
                   12 \<mapsto> \<lparr>senders = {|1|}, active = True\<rparr>],
      signals = [1 \<mapsto> \<lparr>connectedSlots = [binding (10, 1), binding (11, 2), binding (12, 3)]\<rparr>]\<rparr>"

text \<open>A signal with two bindings to the receiver at 10 and one to the receiver at 11.\<close>

definition doubled :: world where
  "doubled =
     \<lparr>receivers = [10 \<mapsto> \<lparr>senders = {|1|}, active = True\<rparr>,
                   11 \<mapsto> \<lparr>senders = {|1|}, active = True\<rparr>],
      signals = [1 \<mapsto> \<lparr>connectedSlots = [binding (10, 1), binding (11, 2), binding (10, 3)]\<rparr>]\<rparr>"

text \<open>
  Receiver classes with 8 bytes before their \<open>HasSlots\<close> base (say, another base class
  that is named first), and a signal at address 1 connected to two receivers of such
  classes, whose \<open>HasSlots\<close> bases are at 100 and 300.
\<close>

definition second_base :: "nat \<Rightarrow> nat" where
  "second_base fn = 8"

definition bound_pair :: world where
  "bound_pair =
     \<lparr>receivers = [100 \<mapsto> \<lparr>senders = {|1|}, active = True\<rparr>,
                   300 \<mapsto> \<lparr>senders = {|1|}, active = True\<rparr>],
      signals = [1 \<mapsto> \<lparr>connectedSlots = [binding (100, 7), binding (300, 9)]\<rparr>]\<rparr>"

section \<open>Properties\<close>

subsection \<open>What the loops compute\<close>

lemma disconnectSlot_loop_filter:
  "disconnectSlot_loop slot cs = filter (\<lambda>c. getDestination c \<noteq> slot) cs"
  by (induction cs) auto

lemma with_receiver_Some:
  "receivers w p = Some h \<Longrightarrow> with_receiver p f w = Inr (w\<lparr>receivers := (receivers w)(p \<mapsto> f h)\<rparr>)"
  by (simp add: with_receiver_def)

lemma with_receiver_None:
  "receivers w p = None \<Longrightarrow> with_receiver p f w = Inl (DeadReceiver p)"
  by (simp add: with_receiver_def)

lemma with_signal_Some:
  "signals w p = Some sg \<Longrightarrow> with_signal p f w = Inr (w\<lparr>signals := (signals w)(p \<mapsto> f sg)\<rparr>)"
  by (simp add: with_signal_def)

lemma with_signal_None:
  "signals w p = None \<Longrightarrow> with_signal p f w = Inl (DeadSignal p)"
  by (simp add: with_signal_def)

lemma HasSlots_disconnectAll_loop_result:
  "\<forall>s\<in>set ss. signals w s \<noteq> None \<Longrightarrow>
   \<exists>w'. HasSlots_disconnectAll_loop this ss w = Inr w' \<and> receivers w' = receivers w \<and>
     (\<forall>s. signals w' s = (if s \<in> set ss then map_option (strip this) (signals w s) else signals w s))"
proof (induction ss arbitrary: w)
  case Nil
  then show ?case by simp
next
  case (Cons s ss)
  from Cons.prems obtain sg where sg: "signals w s = Some sg" by auto
  let ?w1 = "w\<lparr>signals := (signals w)(s \<mapsto> strip this sg)\<rparr>"
  have step: "disconnectSlot s this w = Inr ?w1"
    by (simp add: disconnectSlot_def with_signal_Some [OF sg] disconnectSlot_loop_filter strip_def)
  have live: "\<forall>t\<in>set ss. signals ?w1 t \<noteq> None"
    using Cons.prems by auto
  from Cons.IH [OF live] obtain w' where
    w': "HasSlots_disconnectAll_loop this ss ?w1 = Inr w'" "receivers w' = receivers ?w1"
      "\<forall>t. signals w' t = (if t \<in> set ss then map_option (strip this) (signals ?w1 t) else signals ?w1 t)"
    by blast
  have idem: "strip this (strip this sg) = strip this sg"
    by (simp add: strip_def)
  show ?case
    using step w' sg idem by (auto simp: )
qed

lemma SignalBaseTyped_disconnectAll_loop_result:
  "\<forall>c\<in>set cs. receivers w (getDestination c) \<noteq> None \<Longrightarrow>
   \<exists>w'. SignalBaseTyped_disconnectAll_loop this cs w = Inr w' \<and> signals w' = signals w \<and>
     (\<forall>r. receivers w' r = (if r \<in> getDestination ` set cs then map_option (forget this) (receivers w r) else receivers w r))"
proof (induction cs arbitrary: w)
  case Nil
  then show ?case by simp
next
  case (Cons c cs)
  from Cons.prems obtain h where h: "receivers w (getDestination c) = Some h" by auto
  let ?w1 = "w\<lparr>receivers := (receivers w)(getDestination c \<mapsto> forget this h)\<rparr>"
  have step: "signalDisconnect (getDestination c) this w = Inr ?w1"
    by (simp add: signalDisconnect_def with_receiver_Some [OF h] forget_def)
  have live: "\<forall>d\<in>set cs. receivers ?w1 (getDestination d) \<noteq> None"
    using Cons.prems by auto
  from Cons.IH [OF live] obtain w' where
    w': "SignalBaseTyped_disconnectAll_loop this cs ?w1 = Inr w'" "signals w' = signals ?w1"
      "\<forall>r. receivers w' r = (if r \<in> getDestination ` set cs then map_option (forget this) (receivers ?w1 r) else receivers ?w1 r)"
    by blast
  have idem: "forget this (forget this h) = forget this h"
    by (simp add: forget_def)
  show ?case
    using step w' h idem by auto
qed

lemma shoot_loop_not_eligible:
  "dests_live w cs \<Longrightarrow> eligible w cs = [] \<Longrightarrow> shoot_loop run args cs w u = ([], Returned u)"
  by (induction cs) (auto simp: dests_live_def eligible_def isActive_def split: if_splits)

lemma shoot_loop_returns:
  "dests_live w cs \<Longrightarrow> run_all run args (eligible w cs) u = Inr u' \<Longrightarrow>
   shoot_loop run args cs w u = (map call (eligible w cs), Returned u')"
proof (induction cs arbitrary: u)
  case Nil
  then show ?case by (simp add: eligible_def)
next
  case (Cons c cs)
  from Cons.prems(1) obtain h where h: "receivers w (getDestination c) = Some h"
    and rest: "dests_live w cs"
    by (auto simp: dests_live_def)
  show ?case
  proof (cases "active h")
    case True
    then have el: "eligible w (c # cs) = c # eligible w cs"
      using h by (simp add: eligible_def isActive_def)
    from Cons.prems(2) el obtain u1 where
      u1: "run (object c) (functionPtr c) args u = Inr u1"
        "run_all run args (eligible w cs) u1 = Inr u'"
      by (auto split: sum.splits)
    from Cons.IH [OF rest u1(2)] show ?thesis
      using h True u1(1) el by (simp add: isActive_def call_def)
  next
    case False
    then have el: "eligible w (c # cs) = eligible w cs"
      using h by (simp add: eligible_def isActive_def)
    from Cons.IH [OF rest] Cons.prems(2) show ?thesis
      using h False el by (simp add: isActive_def)
  qed
qed

lemma shoot_loop_throws:
  "dests_live w cs \<Longrightarrow> eligible w cs = pre @ c # post \<Longrightarrow>
   run_all run args pre u = Inr u1 \<Longrightarrow> run (object c) (functionPtr c) args u1 = Inl e \<Longrightarrow>
   shoot_loop run args cs w u = (map call pre @ [call c], Threw e)"
proof (induction cs arbitrary: u pre)
  case Nil
  then show ?case by (simp add: eligible_def)
next
  case (Cons d cs)
  from Cons.prems(1) obtain h where h: "receivers w (getDestination d) = Some h"
    and rest: "dests_live w cs"
    by (auto simp: dests_live_def)
  show ?case
  proof (cases "active h")
    case False
    then have el: "eligible w (d # cs) = eligible w cs"
      using h by (simp add: eligible_def isActive_def)
    from Cons.IH [OF rest _ Cons.prems(3,4)] Cons.prems(2) el show ?thesis
      using h False by (simp add: isActive_def)
  next
    case True
    then have el: "eligible w (d # cs) = d # eligible w cs"
      using h by (simp add: eligible_def isActive_def)
    show ?thesis
    proof (cases pre)
      case Nil
      with Cons.prems(2) el have "d = c" by simp
      with Nil Cons.prems(3,4) show ?thesis
        using h True by (simp add: isActive_def call_def)
    next
      case (Cons p pre')
      with Cons.prems(2) el have dp: "d = p" and el': "eligible w cs = pre' @ c # post"
        by simp_all
      from Cons.prems(3) Cons dp obtain u0 where
        u0: "run (object d) (functionPtr d) args u = Inr u0" "run_all run args pre' u0 = Inr u1"
        by (auto split: sum.splits)
      from Cons.IH [OF rest el' u0(2) Cons.prems(4)] show ?thesis
        using h True u0(1) Cons dp by (simp add: isActive_def call_def)
    qed
  qed
qed

lemma quiet_run_all: "quiet run args \<Longrightarrow> \<exists>u'. run_all run args cs u = Inr u'"
proof (induction cs arbitrary: u)
  case Nil
  then show ?case by simp
next
  case (Cons c cs)
  from Cons.prems obtain u1 where "run (object c) (functionPtr c) args u = Inr u1"
    unfolding quiet_def by blast
  with Cons.IH [OF Cons.prems, of u1] show ?case by simp
qed

lemma shoot_loop_calls_eligible:
  "x \<in> set (fst (shoot_loop run args cs w u)) \<Longrightarrow> x \<in> call ` set (eligible w cs)"
proof (induction cs arbitrary: u)
  case Nil
  then show ?case by simp
next
  case (Cons c cs)
  show ?case
  proof (cases "isActive (getDestination c) w")
    case (Inl e)
    with Cons.prems show ?thesis by simp
  next
    case (Inr a)
    show ?thesis
    proof (cases a)
      case False
      with Inr Cons.prems have "x \<in> set (fst (shoot_loop run args cs w u))" by simp
      from Cons.IH [OF this] show ?thesis by (auto simp: eligible_def)
    next
      case True
      with Inr have el: "eligible w (c # cs) = c # eligible w cs"
        by (simp add: eligible_def)
      show ?thesis
      proof (cases "run (object c) (functionPtr c) args u")
        case (Inl e)
        with Inr True Cons.prems have "x = call c" by (simp add: call_def)
        with el show ?thesis by simp
      next
        case (Inr u1)
        with \<open>isActive (getDestination c) w = Inr a\<close> True Cons.prems
        have "x = call c \<or> x \<in> set (fst (shoot_loop run args cs w u1))"
          by (auto simp: call_def split: prod.splits)
        with Cons.IH [of u1] el show ?thesis by auto
      qed
    qed
  qed
qed

subsection \<open>Connecting\<close>

lemma connect_result:
  assumes "signals w s = Some sg" and "receivers w r = Some h"
  shows "connect s r f w =
     Inr (w\<lparr>signals := (signals w)(s \<mapsto> sg\<lparr>connectedSlots := connectedSlots sg @ [binding (r, f)]\<rparr>),
            receivers := (receivers w)(r \<mapsto> remember s h)\<rparr>)"
  using assms
  by (simp add: connect_def with_signal_def signalConnect_def with_receiver_def binding_def remember_def)

lemma connect_all_result:
  "signals w s = Some sg \<Longrightarrow> \<forall>r\<in>fst ` set ps. receivers w r \<noteq> None \<Longrightarrow>
   \<exists>w'. connect_all s ps w = Inr w' \<and>
     signals w' = (signals w)(s \<mapsto> sg\<lparr>connectedSlots := connectedSlots sg @ map binding ps\<rparr>) \<and>
     (\<forall>r. receivers w' r =
        (if r \<in> fst ` set ps then map_option (remember s) (receivers w r) else receivers w r))"
proof (induction ps arbitrary: w sg)
  case Nil
  then show ?case by (simp add: fun_upd_idem)
next
  case (Cons p ps)
  from Cons.prems(2) obtain h where h: "receivers w (fst p) = Some h" by auto
  let ?sg1 = "sg\<lparr>connectedSlots := connectedSlots sg @ [binding p]\<rparr>"
  let ?w1 = "w\<lparr>signals := (signals w)(s \<mapsto> ?sg1), receivers := (receivers w)(fst p \<mapsto> remember s h)\<rparr>"
  have step: "connect s (fst p) (snd p) w = Inr ?w1"
    using connect_result [OF Cons.prems(1) h, of "snd p"] by simp
  have sg1: "signals ?w1 s = Some ?sg1" by simp
  have live: "\<forall>r\<in>fst ` set ps. receivers ?w1 r \<noteq> None"
    using Cons.prems(2) by auto
  from Cons.IH [OF sg1 live] obtain w' where
    w': "connect_all s ps ?w1 = Inr w'"
      "signals w' = (signals ?w1)(s \<mapsto> ?sg1\<lparr>connectedSlots := connectedSlots ?sg1 @ map binding ps\<rparr>)"
      "\<forall>r. receivers w' r =
        (if r \<in> fst ` set ps then map_option (remember s) (receivers ?w1 r) else receivers ?w1 r)"
    by blast
  have idem: "remember s (remember s h) = remember s h"
    by (simp add: remember_def)
  show ?case
    using step w' h idem by auto
qed

lemma isActive_remember:
  "\<forall>r. receivers w' r = (if r \<in> R then map_option (remember s) (receivers w r) else receivers w r)
   \<Longrightarrow> isActive r w' = isActive r w"
  by (cases "receivers w r") (auto simp: isActive_def remember_def)

lemma eligible_cong:
  "(\<And>r. isActive r w' = isActive r w) \<Longrightarrow> eligible w' cs = eligible w cs"
  by (simp add: eligible_def)

lemma dests_live_isActive:
  "dests_live w cs \<longleftrightarrow> (\<forall>c\<in>set cs. \<exists>a. isActive (getDestination c) w = Inr a)"
  by (auto simp: dests_live_def isActive_def split: option.splits)

lemma eligible_all_active:
  "all_active w (map fst ps) \<Longrightarrow> eligible w (map binding ps) = map binding ps"
  by (induction ps) (auto simp: all_active_def eligible_def binding_def getDestination_def)

lemma all_active_live:
  "all_active w rs \<Longrightarrow> \<forall>r\<in>set rs. receivers w r \<noteq> None"
  by (auto simp: all_active_def list_all_iff isActive_def split: option.splits)

lemma call_binding: "map (call \<circ> binding) ps = ps"
  by (induction ps) (auto simp: call_def binding_def)

lemma wired_reachable:
  "connect_all 1 [(10, 1), (11, 2), (12, 3)] three_receivers = Inr wired"
  by (simp add: three_receivers_def HasSlots_new_def SignalBaseTyped_new_def empty_world_def
      wired_def connect_def with_signal_def signalConnect_def with_receiver_def binding_def
      fun_upd_twist)

lemma wired_signal:
  "signals wired 1 = Some \<lparr>connectedSlots = [binding (10, 1), binding (11, 2), binding (12, 3)]\<rparr>"
  by (simp add: wired_def)

lemma wired_live:
  "dests_live wired [binding (10, 1), binding (11, 2), binding (12, 3)]"
  by (simp add: dests_live_def wired_def binding_def getDestination_def)

lemma wired_eligible:
  "eligible wired [binding (10, 1), binding (11, 2), binding (12, 3)] =
     [binding (10, 1), binding (11, 2), binding (12, 3)]"
  by (simp add: eligible_def wired_def binding_def getDestination_def isActive_def)

subsection \<open>Disconnecting\<close>

lemma disconnect_loop_result:
  "receivers w r = Some h \<Longrightarrow>
   disconnect_loop s r cs w =
     Inr (filter (\<lambda>c. getDestination c \<noteq> r) cs,
          if r \<in> getDestination ` set cs
          then w\<lparr>receivers := (receivers w)(r \<mapsto> forget s h)\<rparr> else w)"
proof (induction cs arbitrary: w h)
  case Nil
  then show ?case by simp
next
  case (Cons c cs)
  show ?case
  proof (cases "getDestination c = r")
    case False
    with Cons.IH [OF Cons.prems] show ?thesis by simp
  next
    case True
    let ?w1 = "w\<lparr>receivers := (receivers w)(r \<mapsto> forget s h)\<rparr>"
    have step: "signalDisconnect r s w = Inr ?w1"
      using Cons.prems by (simp add: signalDisconnect_def with_receiver_def forget_def)
    have h1: "receivers ?w1 r = Some (forget s h)" by simp
    have idem: "forget s (forget s h) = forget s h" by (simp add: forget_def)
    from Cons.IH [OF h1] show ?thesis
      using True step idem by simp
  qed
qed

lemma disconnect_loop_absent:
  "r \<notin> getDestination ` set cs \<Longrightarrow> disconnect_loop s r cs w = Inr (cs, w)"
  by (induction cs) auto

lemma disconnect_loop_dead:
  "receivers w r = None \<Longrightarrow> r \<in> getDestination ` set cs \<Longrightarrow>
   disconnect_loop s r cs w = Inl (DeadReceiver r)"
  by (induction cs) (auto simp: signalDisconnect_def with_receiver_def)

lemma disconnect_absent:
  "signals w s = Some sg \<Longrightarrow> r \<notin> getDestination ` set (connectedSlots sg) \<Longrightarrow>
   disconnect s r w = Inr w"
  by (simp add: disconnect_def disconnect_loop_absent with_signal_def fun_upd_idem)

lemma disconnect_present:
  "signals w s = Some sg \<Longrightarrow> receivers w r = Some h \<Longrightarrow>
   r \<in> getDestination ` set (connectedSlots sg) \<Longrightarrow>
   disconnect s r w =
     Inr (w\<lparr>receivers := (receivers w)(r \<mapsto> forget s h), signals := (signals w)(s \<mapsto> strip r sg)\<rparr>)"
  by (simp add: disconnect_def disconnect_loop_result with_signal_def strip_def)

lemma disconnect_dead:
  "signals w s = Some sg \<Longrightarrow> receivers w r = None \<Longrightarrow>
   r \<in> getDestination ` set (connectedSlots sg) \<Longrightarrow>
   disconnect s r w = Inl (DeadReceiver r)"
  by (simp add: disconnect_def disconnect_loop_dead)

lemma strip_absent: "r \<notin> getDestination ` set (connectedSlots (strip r sg))"
  by (auto simp: strip_def)

lemma shoot_empty:
  "signals w s = Some sg \<Longrightarrow> connectedSlots sg = [] \<Longrightarrow> shoot run s args w u = (w, [], Returned u)"
  by (simp add: shoot_def)

lemma connect_twice_unfold:
  "connect_all s [(r, f), (r, f)] w =
     (case connect s r f w of Inl e \<Rightarrow> Inl e | Inr w1 \<Rightarrow> connect s r f w1)"
  by (simp split: sum.splits)

subsection \<open>The active flag and emission\<close>

lemma setActive_result:
  "receivers w r = Some h \<Longrightarrow>
   setActive r b w = Inr (w\<lparr>receivers := (receivers w)(r \<mapsto> h\<lparr>active := b\<rparr>)\<rparr>)"
  by (simp add: setActive_def with_receiver_def)

lemma eligible_deactivated:
  "receivers w r = Some h \<Longrightarrow>
   eligible (w\<lparr>receivers := (receivers w)(r \<mapsto> h\<lparr>active := False\<rparr>)\<rparr>) cs =
     filter (\<lambda>c. getDestination c \<noteq> r) (eligible w cs)"
  by (induction cs) (auto simp: eligible_def isActive_def)

lemma eligible_activated:
  "eligible (w\<lparr>receivers := (receivers w)(r \<mapsto> h\<lparr>active := True\<rparr>)\<rparr>) cs =
     filter (\<lambda>c. getDestination c = r \<or> isActive (getDestination c) w = Inr True) cs"
  by (induction cs) (auto simp: eligible_def isActive_def)

lemma dests_live_upd:
  "dests_live w cs \<Longrightarrow> dests_live (w\<lparr>receivers := (receivers w)(r \<mapsto> h)\<rparr>) cs"
  by (simp add: dests_live_def)

lemma shoot_returns:
  "signals w s = Some sg \<Longrightarrow> dests_live w (connectedSlots sg) \<Longrightarrow> quiet run args \<Longrightarrow>
   \<exists>u'. shoot run s args w u = (w, map call (eligible w (connectedSlots sg)), Returned u')"
  using quiet_run_all [of run args "eligible w (connectedSlots sg)" u] shoot_loop_returns
  by (fastforce simp: shoot_def)

lemma shoot_calls_eligible:
  "signals w s = Some sg \<Longrightarrow> x \<in> set (fst (snd (shoot run s args w u))) \<Longrightarrow>
   x \<in> call ` set (eligible w (connectedSlots sg))"
  using shoot_loop_calls_eligible by (simp add: shoot_def)

lemma disconnect_total:
  assumes sg: "signals w s = Some sg" and h: "receivers w r = Some h"
  shows "\<exists>w2. disconnect s r w = Inr w2 \<and> signals w2 s = Some (strip r sg) \<and>
           (r \<in> getDestination ` set (connectedSlots sg) \<longrightarrow> receivers w2 r = Some (forget s h))"
proof (cases "r \<in> getDestination ` set (connectedSlots sg)")
  case True
  from disconnect_present [OF sg h True] show ?thesis by simp
next
  case False
  then have "filter (\<lambda>c. getDestination c \<noteq> r) (connectedSlots sg) = connectedSlots sg"
    by (auto simp: filter_id_conv)
  then have "strip r sg = sg" by (simp add: strip_def)
  with disconnect_absent [OF sg False] sg False show ?thesis by simp
qed

subsection \<open>Agreement of the two registries, and the destructors\<close>

lemma consistent_dests_live:
  "consistent w \<Longrightarrow> signals w s = Some sg \<Longrightarrow> dests_live w (connectedSlots sg)"
  by (fastforce simp: consistent_def dests_live_def)

lemma consistent_senders_live:
  "consistent w \<Longrightarrow> receivers w r = Some h \<Longrightarrow> s |\<in>| senders h \<Longrightarrow> signals w s \<noteq> None"
  by (fastforce simp: consistent_def)

lemma strip_id:
  assumes "r \<notin> getDestination ` set (connectedSlots sg)"
  shows "strip r sg = sg"
proof -
  from assms have "filter (\<lambda>c. getDestination c \<noteq> r) (connectedSlots sg) = connectedSlots sg"
    by (auto simp: filter_id_conv)
  then show ?thesis by (simp add: strip_def)
qed

lemma forget_id: "s |\<notin>| senders h \<Longrightarrow> forget s h = h"
  by (simp add: forget_def)

lemma consistent_strip:
  assumes ok: "consistent w" and h: "receivers w r = Some h"
    and rec: "receivers w' = (receivers w)(r := None)"
    and sig: "\<forall>s. signals w' s = map_option (strip r) (signals w s)"
  shows "consistent w'"
  unfolding consistent_def
proof (intro conjI allI impI ballI)
  fix s sg' c
  assume s: "signals w' s = Some sg'" and c: "c \<in> set (connectedSlots sg')"
  from s sig obtain sg where sg: "signals w s = Some sg" and sg': "sg' = strip r sg"
    by (cases "signals w s") auto
  from c sg' have c0: "c \<in> set (connectedSlots sg)" and ne: "getDestination c \<noteq> r"
    by (auto simp: strip_def)
  from ok sg c0 obtain h0 where "receivers w (getDestination c) = Some h0" "s |\<in>| senders h0"
    unfolding consistent_def by blast
  with ne rec show "\<exists>h. receivers w' (getDestination c) = Some h \<and> s |\<in>| senders h"
    by simp
next
  fix x h' s
  assume x: "receivers w' x = Some h'" and s: "s |\<in>| senders h'"
  from x rec have ne: "x \<noteq> r" and x0: "receivers w x = Some h'"
    by (auto split: if_splits)
  from ok x0 s obtain sg where sg: "signals w s = Some sg"
    and b: "x \<in> getDestination ` set (connectedSlots sg)"
    unfolding consistent_def by blast
  from sg sig have "signals w' s = Some (strip r sg)" by simp
  moreover from b ne have "x \<in> getDestination ` set (connectedSlots (strip r sg))"
    by (auto simp: strip_def)
  ultimately show "\<exists>sg. signals w' s = Some sg \<and> x \<in> getDestination ` set (connectedSlots sg)"
    by blast
qed

lemma consistent_forget:
  assumes ok: "consistent w" and sg: "signals w s = Some sg"
    and sig: "signals w' = (signals w)(s := None)"
    and rec: "\<forall>r. receivers w' r = map_option (forget s) (receivers w r)"
  shows "consistent w'"
  unfolding consistent_def
proof (intro conjI allI impI ballI)
  fix t sg' c
  assume t: "signals w' t = Some sg'" and c: "c \<in> set (connectedSlots sg')"
  from t sig have ne: "t \<noteq> s" and t0: "signals w t = Some sg'"
    by (auto split: if_splits)
  from ok t0 c obtain h0 where h0: "receivers w (getDestination c) = Some h0" "t |\<in>| senders h0"
    unfolding consistent_def by blast
  from h0(1) rec have "receivers w' (getDestination c) = Some (forget s h0)" by simp
  moreover from h0(2) ne have "t |\<in>| senders (forget s h0)" by (simp add: forget_def)
  ultimately show "\<exists>h. receivers w' (getDestination c) = Some h \<and> t |\<in>| senders h"
    by blast
next
  fix r h' t
  assume r: "receivers w' r = Some h'" and t: "t |\<in>| senders h'"
  from r rec obtain h0 where h0: "receivers w r = Some h0" and h': "h' = forget s h0"
    by (cases "receivers w r") auto
  from t h' have t0: "t |\<in>| senders h0" and ne: "t \<noteq> s"
    by (auto simp: forget_def)
  from ok h0 t0 obtain sg0 where "signals w t = Some sg0"
    "r \<in> getDestination ` set (connectedSlots sg0)"
    unfolding consistent_def by blast
  with ne sig show "\<exists>sg. signals w' t = Some sg \<and> r \<in> getDestination ` set (connectedSlots sg)"
    by simp
qed

lemma HasSlots_destroy_result:
  assumes ok: "consistent w" and h: "receivers w r = Some h"
  shows "\<exists>w'. HasSlots_destroy r w = Inr w' \<and> receivers w' = (receivers w)(r := None) \<and>
           (\<forall>s. signals w' s = map_option (strip r) (signals w s)) \<and> consistent w'"
proof -
  let ?ss = "sorted_list_of_fset (senders h)"
  have "\<forall>s\<in>set ?ss. signals w s \<noteq> None"
    using consistent_senders_live [OF ok h] by simp
  from HasSlots_disconnectAll_loop_result [OF this, of r] obtain w1 where
    w1: "HasSlots_disconnectAll_loop r ?ss w = Inr w1" "receivers w1 = receivers w"
      "\<forall>s. signals w1 s = (if s \<in> set ?ss then map_option (strip r) (signals w s) else signals w s)"
    by blast
  have sig: "\<forall>s. signals w1 s = map_option (strip r) (signals w s)"
  proof
    fix s
    show "signals w1 s = map_option (strip r) (signals w s)"
    proof (cases "s |\<in>| senders h")
      case True
      with w1(3) show ?thesis by simp
    next
      case False
      show ?thesis
      proof (cases "signals w s")
        case None
        with w1(3) show ?thesis by simp
      next
        case (Some sg)
        have "r \<notin> getDestination ` set (connectedSlots sg)"
        proof
          assume "r \<in> getDestination ` set (connectedSlots sg)"
          then obtain c where "c \<in> set (connectedSlots sg)" "getDestination c = r" by auto
          with ok Some h have "s |\<in>| senders h" unfolding consistent_def by fastforce
          with False show False by simp
        qed
        from strip_id [OF this] Some w1(3) False show ?thesis by simp
      qed
    qed
  qed
  let ?w2 = "w1\<lparr>receivers := (receivers w1)(r \<mapsto> h\<lparr>senders := {||}\<rparr>)\<rparr>"
  let ?w3 = "?w2\<lparr>receivers := (receivers ?w2)(r := None)\<rparr>"
  have d: "HasSlots_disconnectAll r w = Inr ?w2"
    using h w1(1,2) by (simp add: HasSlots_disconnectAll_def with_receiver_def)
  then have e: "HasSlots_destroy r w = Inr ?w3"
    by (simp add: HasSlots_destroy_def)
  have rec3: "receivers ?w3 = (receivers w)(r := None)"
    using w1(2) by simp
  have sig3: "\<forall>s. signals ?w3 s = map_option (strip r) (signals w s)"
    using sig by simp
  from consistent_strip [OF ok h rec3 sig3] e rec3 sig3 show ?thesis by blast
qed

lemma SignalBaseTyped_destroy_result:
  assumes ok: "consistent w" and sg: "signals w s = Some sg"
  shows "\<exists>w'. SignalBaseTyped_destroy s w = Inr w' \<and> signals w' = (signals w)(s := None) \<and>
           (\<forall>r. receivers w' r = map_option (forget s) (receivers w r)) \<and> consistent w'"
proof -
  let ?cs = "connectedSlots sg"
  have "\<forall>c\<in>set ?cs. receivers w (getDestination c) \<noteq> None"
    using consistent_dests_live [OF ok sg] by (simp add: dests_live_def)
  from SignalBaseTyped_disconnectAll_loop_result [OF this, of s] obtain w1 where
    w1: "SignalBaseTyped_disconnectAll_loop s ?cs w = Inr w1" "signals w1 = signals w"
      "\<forall>r. receivers w1 r =
         (if r \<in> getDestination ` set ?cs then map_option (forget s) (receivers w r)
          else receivers w r)"
    by blast
  have rec: "\<forall>r. receivers w1 r = map_option (forget s) (receivers w r)"
  proof
    fix r
    show "receivers w1 r = map_option (forget s) (receivers w r)"
    proof (cases "r \<in> getDestination ` set ?cs")
      case True
      with w1(3) show ?thesis by simp
    next
      case False
      show ?thesis
      proof (cases "receivers w r")
        case None
        with w1(3) show ?thesis by simp
      next
        case (Some h)
        have "s |\<notin>| senders h"
        proof
          assume "s |\<in>| senders h"
          with ok Some sg have "r \<in> getDestination ` set ?cs"
            unfolding consistent_def by fastforce
          with False show False by simp
        qed
        from forget_id [OF this] Some w1(3) False show ?thesis by simp
      qed
    qed
  qed
  let ?w2 = "w1\<lparr>signals := (signals w1)(s := None)\<rparr>"
  have e: "SignalBaseTyped_destroy s w = Inr ?w2"
    using sg w1(1) by (simp add: SignalBaseTyped_destroy_def)
  have sig2: "signals ?w2 = (signals w)(s := None)" using w1(2) by simp
  have rec2: "\<forall>r. receivers ?w2 r = map_option (forget s) (receivers w r)" using rec by simp
  from consistent_forget [OF ok sg sig2 rec2] e sig2 rec2 show ?thesis by blast
qed

lemma shoot_loop_no_fault:
  "dests_live w cs \<Longrightarrow> snd (shoot_loop run args cs w u) \<noteq> Undefined f"
proof (induction cs arbitrary: u)
  case Nil
  then show ?case by simp
next
  case (Cons c cs)
  from Cons.prems obtain h where h: "receivers w (getDestination c) = Some h"
    and rest: "dests_live w cs"
    by (auto simp: dests_live_def)
  show ?case
  proof (cases "active h")
    case False
    with h Cons.IH [OF rest, of u] show ?thesis by (simp add: isActive_def)
  next
    case True
    show ?thesis
    proof (cases "run (object c) (functionPtr c) args u")
      case (Inl e)
      with h True show ?thesis by (simp add: isActive_def)
    next
      case (Inr u1)
      with h True Cons.IH [OF rest, of u1] show ?thesis
        by (auto simp: isActive_def split: prod.splits)
    qed
  qed
qed

lemma shoot_no_fault:
  "signals w s = Some sg \<Longrightarrow> dests_live w (connectedSlots sg) \<Longrightarrow>
   snd (snd (shoot run s args w u)) \<noteq> Undefined f"
  by (simp add: shoot_def shoot_loop_no_fault)

lemma wired_consistent: "consistent wired"
  by (auto simp: consistent_def wired_def binding_def getDestination_def split: if_splits)

subsection \<open>Copying a signal\<close>

lemma clone_id: "clone c = c"
  by (simp add: clone_def)

lemma SignalBaseTyped_copy_loop_result:
  "signals w this = Some sg0 \<Longrightarrow> \<forall>c\<in>set cs. receivers w (getDestination c) \<noteq> None \<Longrightarrow>
   \<exists>w'. SignalBaseTyped_copy_loop this cs w = Inr w' \<and>
     signals w' = (signals w)(this \<mapsto> sg0\<lparr>connectedSlots := connectedSlots sg0 @ cs\<rparr>) \<and>
     (\<forall>r. receivers w' r =
        (if r \<in> getDestination ` set cs then map_option (remember this) (receivers w r)
         else receivers w r))"
proof (induction cs arbitrary: w sg0)
  case Nil
  then show ?case by (simp add: fun_upd_idem)
next
  case (Cons c cs)
  from Cons.prems(2) obtain h where h: "receivers w (getDestination c) = Some h" by auto
  let ?sg1 = "sg0\<lparr>connectedSlots := connectedSlots sg0 @ [c]\<rparr>"
  let ?w1 = "w\<lparr>receivers := (receivers w)(getDestination c \<mapsto> remember this h)\<rparr>"
  let ?w2 = "?w1\<lparr>signals := (signals ?w1)(this \<mapsto> ?sg1)\<rparr>"
  have s1: "signalConnect (getDestination c) this w = Inr ?w1"
    using h by (simp add: signalConnect_def with_receiver_def remember_def)
  have s2: "with_signal this (\<lambda>sg. sg\<lparr>connectedSlots := connectedSlots sg @ [clone c]\<rparr>) ?w1 = Inr ?w2"
    using Cons.prems(1) by (simp add: with_signal_def clone_id)
  have sg2: "signals ?w2 this = Some ?sg1" by simp
  have live: "\<forall>d\<in>set cs. receivers ?w2 (getDestination d) \<noteq> None"
    using Cons.prems(2) by auto
  from Cons.IH [OF sg2 live] obtain w' where
    w': "SignalBaseTyped_copy_loop this cs ?w2 = Inr w'"
      "signals w' = (signals ?w2)(this \<mapsto> ?sg1\<lparr>connectedSlots := connectedSlots ?sg1 @ cs\<rparr>)"
      "\<forall>r. receivers w' r =
        (if r \<in> getDestination ` set cs then map_option (remember this) (receivers ?w2 r)
         else receivers ?w2 r)"
    by blast
  have idem: "remember this (remember this h) = remember this h"
    by (simp add: remember_def)
  have step: "SignalBaseTyped_copy_loop this (c # cs) w = SignalBaseTyped_copy_loop this cs ?w2"
    using s1 s2 by simp
  show ?case
    unfolding step using w' h idem by auto
qed

lemma shoot_loop_cong:
  "(\<And>r. isActive r w' = isActive r w) \<Longrightarrow>
   shoot_loop run args cs w' u = shoot_loop run args cs w u"
  by (induction cs arbitrary: u) (auto split: sum.splits)

lemma consistent_copy_signal:
  assumes ok: "consistent w" and sg: "signals w src = Some sg" and fresh: "signals w this = None"
    and sig: "signals w' = (signals w)(this \<mapsto> \<lparr>connectedSlots = connectedSlots sg\<rparr>)"
    and rec: "\<forall>r. receivers w' r =
        (if r \<in> getDestination ` set (connectedSlots sg)
         then map_option (remember this) (receivers w r) else receivers w r)"
  shows "consistent w'"
  unfolding consistent_def
proof (intro conjI allI impI ballI)
  fix t sg' c
  assume t: "signals w' t = Some sg'" and c: "c \<in> set (connectedSlots sg')"
  show "\<exists>h. receivers w' (getDestination c) = Some h \<and> t |\<in>| senders h"
  proof (cases "t = this")
    case True
    with t sig c have c0: "c \<in> set (connectedSlots sg)" by auto
    with ok sg obtain h0 where "receivers w (getDestination c) = Some h0"
      unfolding consistent_def by blast
    with rec c0 have "receivers w' (getDestination c) = Some (remember this h0)" by simp
    with True show ?thesis by (simp add: remember_def)
  next
    case False
    with t sig have "signals w t = Some sg'" by simp
    with ok c obtain h0 where h0: "receivers w (getDestination c) = Some h0" "t |\<in>| senders h0"
      unfolding consistent_def by blast
    with rec show ?thesis by (auto simp: remember_def)
  qed
next
  fix r h' t
  assume r: "receivers w' r = Some h'" and t: "t |\<in>| senders h'"
  from r rec obtain h0 where h0: "receivers w r = Some h0"
    and h': "h' = (if r \<in> getDestination ` set (connectedSlots sg) then remember this h0 else h0)"
    by (cases "receivers w r") (auto split: if_splits)
  show "\<exists>sg. signals w' t = Some sg \<and> r \<in> getDestination ` set (connectedSlots sg)"
  proof (cases "t |\<in>| senders h0")
    case True
    with ok h0 obtain sg0 where sg0: "signals w t = Some sg0"
      "r \<in> getDestination ` set (connectedSlots sg0)"
      unfolding consistent_def by blast
    with fresh have "t \<noteq> this" by auto
    with sg0 sig show ?thesis by simp
  next
    case False
    with t h' have "t = this" "r \<in> getDestination ` set (connectedSlots sg)"
      by (auto simp: remember_def split: if_splits)
    with sig show ?thesis by simp
  qed
qed

lemma wired_shoot:
  "shoot log_run 1 5 wired [] =
     (wired, [(10, 1), (11, 2), (12, 3)], Returned [(10, 1, 5), (11, 2, 5), (12, 3, 5)])"
  by (simp add: shoot_def wired_def binding_def isActive_def getDestination_def log_run_def)

subsection \<open>Removal, compared with notifying once\<close>

lemma notify_each_result:
  "\<forall>r\<in>set rs. receivers w r \<noteq> None \<Longrightarrow>
   \<exists>w'. notify_each this rs w = Inr w' \<and> signals w' = signals w \<and>
     (\<forall>r. receivers w' r =
        (if r \<in> set rs then map_option (forget this) (receivers w r) else receivers w r))"
proof (induction rs arbitrary: w)
  case Nil
  then show ?case by simp
next
  case (Cons r rs)
  from Cons.prems obtain h where h: "receivers w r = Some h" by auto
  let ?w1 = "w\<lparr>receivers := (receivers w)(r \<mapsto> forget this h)\<rparr>"
  have step: "signalDisconnect r this w = Inr ?w1"
    by (simp add: signalDisconnect_def with_receiver_Some [OF h] forget_def)
  have live: "\<forall>x\<in>set rs. receivers ?w1 x \<noteq> None"
    using Cons.prems by auto
  from Cons.IH [OF live] obtain w' where
    w': "notify_each this rs ?w1 = Inr w'" "signals w' = signals ?w1"
      "\<forall>x. receivers w' x =
         (if x \<in> set rs then map_option (forget this) (receivers ?w1 x) else receivers ?w1 x)"
    by blast
  have idem: "forget this (forget this h) = forget this h"
    by (simp add: forget_def)
  show ?case
    using step w' h idem by auto
qed

lemma world_eqI:
  "signals w1 = signals w2 \<Longrightarrow> receivers w1 = receivers w2 \<Longrightarrow> w1 = (w2::world)"
  by simp

lemma disconnect_is_once: "disconnect s r w = disconnect_once s r w"
proof (cases "signals w s")
  case None
  then show ?thesis by (simp add: disconnect_def disconnect_once_def)
next
  case (Some sg)
  show ?thesis
  proof (cases "r \<in> getDestination ` set (connectedSlots sg)")
    case False
    with disconnect_absent [OF Some False] Some show ?thesis
      by (simp add: disconnect_once_def)
  next
    case True
    show ?thesis
    proof (cases "receivers w r")
      case None
      with disconnect_dead [OF Some None True] Some True show ?thesis
        by (simp add: disconnect_once_def signalDisconnect_def with_receiver_def)
    next
      case (Some h)
      with disconnect_present [OF \<open>signals w s = Some sg\<close> Some True] \<open>signals w s = Some sg\<close> True
      show ?thesis
        by (simp add: disconnect_once_def signalDisconnect_def with_receiver_def with_signal_def
            forget_def)
    qed
  qed
qed

lemma disconnectAll_result:
  assumes sg: "signals w s = Some sg" and live: "dests_live w (connectedSlots sg)"
  shows "\<exists>w'. SignalBaseTyped_disconnectAll s w = Inr w' \<and>
           disconnectAll_once s w = Inr w' \<and>
           signals w' = (signals w)(s \<mapsto> sg\<lparr>connectedSlots := []\<rparr>) \<and>
           (\<forall>r. receivers w' r =
              (if r \<in> getDestination ` set (connectedSlots sg)
               then map_option (forget s) (receivers w r) else receivers w r))"
proof -
  let ?cs = "connectedSlots sg"
  have l1: "\<forall>c\<in>set ?cs. receivers w (getDestination c) \<noteq> None"
    using live by (simp add: dests_live_def)
  from SignalBaseTyped_disconnectAll_loop_result [OF l1, of s] obtain w1 where
    w1: "SignalBaseTyped_disconnectAll_loop s ?cs w = Inr w1" "signals w1 = signals w"
      "\<forall>r. receivers w1 r =
         (if r \<in> getDestination ` set ?cs then map_option (forget s) (receivers w r)
          else receivers w r)"
    by blast
  have l2: "\<forall>r\<in>set (remdups (map getDestination ?cs)). receivers w r \<noteq> None"
    using l1 by auto
  from notify_each_result [OF l2, of s] obtain w2 where
    w2: "notify_each s (remdups (map getDestination ?cs)) w = Inr w2" "signals w2 = signals w"
      "\<forall>r. receivers w2 r =
         (if r \<in> set (remdups (map getDestination ?cs)) then map_option (forget s) (receivers w r)
          else receivers w r)"
    by blast
  have "receivers w2 = receivers w1"
    using w1(3) w2(3) by auto
  with w1(2) w2(2) have eq: "w2 = w1" by (simp add: world_eqI)
  let ?w' = "w1\<lparr>signals := (signals w1)(s \<mapsto> sg\<lparr>connectedSlots := []\<rparr>)\<rparr>"
  have a: "SignalBaseTyped_disconnectAll s w = Inr ?w'"
    using sg w1(1,2) by (simp add: SignalBaseTyped_disconnectAll_def with_signal_def)
  have b: "disconnectAll_once s w = Inr ?w'"
    using sg w2(1) w1(2) eq by (simp add: disconnectAll_once_def with_signal_def)
  from a b w1(2,3) show ?thesis by simp
qed

subsection \<open>Copying a receiver\<close>

text \<open>The loop of \<open>duplicateSlot\<close> returns when no copy it appends leads to the old
  target again: it appends one copy for each binding to the old target, in their order.
  This holds for every layout of the receiver classes.\<close>

lemma duplicateSlot_loop_result:
  assumes miss: "copies_miss baseOffset oldTarget newTarget cs"
  shows "duplicateSlot_loop baseOffset oldTarget newTarget i cs =
     Some (cs @ map (\<lambda>c. duplicate baseOffset c newTarget)
                  (filter (\<lambda>c. getDestination c = oldTarget) (drop i cs)))"
  using miss
proof (induction "length cs - i + length (filter (\<lambda>c. getDestination c = oldTarget) (drop i cs))"
    arbitrary: i cs rule: less_induct)
  case less
  show ?case
  proof (cases "i < length cs")
    case False
    then show ?thesis
      by (subst duplicateSlot_loop.simps) simp
  next
    case True
    then have dr: "drop i cs = cs ! i # drop (Suc i) cs"
      by (simp add: Cons_nth_drop_Suc)
    show ?thesis
    proof (cases "getDestination (cs ! i) = oldTarget")
      case False
      have "length cs - Suc i + length (filter (\<lambda>c. getDestination c = oldTarget) (drop (Suc i) cs))
          < length cs - i + length (filter (\<lambda>c. getDestination c = oldTarget) (drop i cs))"
        using True dr False by simp
      from less.hyps [OF this less.prems] have
        "duplicateSlot_loop baseOffset oldTarget newTarget (Suc i) cs =
           Some (cs @ map (\<lambda>c. duplicate baseOffset c newTarget)
                     (filter (\<lambda>c. getDestination c = oldTarget) (drop (Suc i) cs)))" .
      with True False dr show ?thesis
        by (subst duplicateSlot_loop.simps) simp
    next
      case match: True
      let ?d = "duplicate baseOffset (cs ! i) newTarget"
      let ?cs' = "cs @ [?d]"
      have nd: "getDestination ?d \<noteq> oldTarget"
        using less.prems True match
        by (simp add: copies_miss_def duplicate_def getDestination_def)
      have miss': "copies_miss baseOffset oldTarget newTarget ?cs'"
        using less.prems nd by (simp add: copies_miss_def)
      have dr': "drop (Suc i) ?cs' = drop (Suc i) cs @ [?d]"
        using True by simp
      have "length ?cs' - Suc i + length (filter (\<lambda>c. getDestination c = oldTarget) (drop (Suc i) ?cs'))
          < length cs - i + length (filter (\<lambda>c. getDestination c = oldTarget) (drop i cs))"
        using True match nd unfolding dr' by (simp add: dr)
      from less.hyps [OF this miss'] have
        "duplicateSlot_loop baseOffset oldTarget newTarget (Suc i) ?cs' =
           Some (?cs' @ map (\<lambda>c. duplicate baseOffset c newTarget)
                     (filter (\<lambda>c. getDestination c = oldTarget) (drop (Suc i) ?cs')))" .
      then have "duplicateSlot_loop baseOffset oldTarget newTarget (Suc i) ?cs' =
           Some (cs @ map (\<lambda>c. duplicate baseOffset c newTarget)
                     (filter (\<lambda>c. getDestination c = oldTarget) (drop i cs)))"
        using nd match unfolding dr' by (simp add: dr)
      with True match show ?thesis
        by (subst duplicateSlot_loop.simps) simp
    qed
  qed
qed

lemma duplicateSlot_result:
  "signals w s = Some sg \<Longrightarrow> copies_miss baseOffset oldTarget newTarget (connectedSlots sg) \<Longrightarrow>
   duplicateSlot baseOffset s oldTarget newTarget w =
     Some (Inr (w\<lparr>signals := (signals w)(s \<mapsto> duplicated baseOffset oldTarget newTarget sg)\<rparr>))"
  by (simp add: duplicateSlot_def duplicateSlot_loop_result duplicated_def)

lemma HasSlots_copy_loop_result:
  "distinct ss \<Longrightarrow>
   \<forall>s\<in>set ss. \<exists>sg. signals w s = Some sg \<and> copies_miss baseOffset src this (connectedSlots sg) \<Longrightarrow>
   receivers w this = Some h0 \<Longrightarrow>
   \<exists>w'. HasSlots_copy_loop baseOffset src this ss w = Some (Inr w') \<and>
     receivers w' = (receivers w)(this \<mapsto> h0\<lparr>senders := senders h0 |\<union>| fset_of_list ss\<rparr>) \<and>
     (\<forall>s. signals w' s =
        (if s \<in> set ss then map_option (duplicated baseOffset src this) (signals w s)
         else signals w s))"
proof (induction ss arbitrary: w h0)
  case Nil
  then show ?case by (simp add: fun_upd_idem)
next
  case (Cons s ss)
  from Cons.prems(2) obtain sg where sg: "signals w s = Some sg"
    and miss: "copies_miss baseOffset src this (connectedSlots sg)"
    by auto
  let ?w1 = "w\<lparr>signals := (signals w)(s \<mapsto> duplicated baseOffset src this sg)\<rparr>"
  let ?h1 = "h0\<lparr>senders := finsert s (senders h0)\<rparr>"
  let ?w2 = "?w1\<lparr>receivers := (receivers ?w1)(this \<mapsto> ?h1)\<rparr>"
  have s1: "duplicateSlot baseOffset s src this w = Some (Inr ?w1)"
    using duplicateSlot_result [OF sg miss] .
  have s2: "with_receiver this (\<lambda>h. h\<lparr>senders := finsert s (senders h)\<rparr>) ?w1 = Inr ?w2"
    using Cons.prems(3) by (simp add: with_receiver_def)
  have step: "HasSlots_copy_loop baseOffset src this (s # ss) w =
      HasSlots_copy_loop baseOffset src this ss ?w2"
    using s1 s2 by simp
  have d: "distinct ss" and notin: "s \<notin> set ss" using Cons.prems(1) by simp_all
  have live: "\<forall>t\<in>set ss. \<exists>sg. signals ?w2 t = Some sg \<and>
      copies_miss baseOffset src this (connectedSlots sg)"
    using Cons.prems(2) notin by auto
  have h1: "receivers ?w2 this = Some ?h1" by simp
  from Cons.IH [OF d live h1] obtain w' where
    w': "HasSlots_copy_loop baseOffset src this ss ?w2 = Some (Inr w')"
      "receivers w' = (receivers ?w2)(this \<mapsto> ?h1\<lparr>senders := senders ?h1 |\<union>| fset_of_list ss\<rparr>)"
      "\<forall>t. signals w' t =
        (if t \<in> set ss then map_option (duplicated baseOffset src this) (signals ?w2 t)
         else signals ?w2 t)"
    by blast
  have r: "receivers w' = (receivers w)(this \<mapsto> h0\<lparr>senders := senders h0 |\<union>| fset_of_list (s # ss)\<rparr>)"
    using w'(2) by simp
  have g: "\<forall>t. signals w' t =
        (if t \<in> set (s # ss) then map_option (duplicated baseOffset src this) (signals w t)
         else signals w t)"
    using w'(3) notin sg by auto
  show ?case unfolding step using w'(1) r g by blast
qed

text \<open>The copy constructor, for any layout with which every \<open>duplicateSlot\<close> returns.\<close>

lemma HasSlots_copy_any_layout:
  assumes h: "receivers w src = Some h"
    and miss: "\<forall>s. s |\<in>| senders h \<longrightarrow>
        (\<exists>sg. signals w s = Some sg \<and> copies_miss baseOffset src this (connectedSlots sg))"
  shows "\<exists>w'. HasSlots_copy baseOffset src this w = Some (Inr w') \<and>
           receivers w' = (receivers w)(this \<mapsto> \<lparr>senders = senders h, active = active h\<rparr>) \<and>
           (\<forall>s. signals w' s =
              (if s |\<in>| senders h then map_option (duplicated baseOffset src this) (signals w s)
               else signals w s))"
proof -
  let ?ss = "sorted_list_of_fset (senders h)"
  let ?h0 = "\<lparr>senders = {||}, active = active h\<rparr>"
  let ?w0 = "w\<lparr>receivers := (receivers w)(this \<mapsto> ?h0)\<rparr>"
  have d: "distinct ?ss" by (simp add: sorted_list_of_fset.rep_eq)
  have live: "\<forall>s\<in>set ?ss. \<exists>sg. signals ?w0 s = Some sg \<and>
      copies_miss baseOffset src this (connectedSlots sg)"
    using miss by simp
  have h0: "receivers ?w0 this = Some ?h0" by simp
  from HasSlots_copy_loop_result [OF d live h0] obtain w' where
    w': "HasSlots_copy_loop baseOffset src this ?ss ?w0 = Some (Inr w')"
      "receivers w' = (receivers ?w0)(this \<mapsto> ?h0\<lparr>senders := senders ?h0 |\<union>| fset_of_list ?ss\<rparr>)"
      "\<forall>s. signals w' s =
        (if s \<in> set ?ss then map_option (duplicated baseOffset src this) (signals ?w0 s)
         else signals ?w0 s)"
    by blast
  have copy: "HasSlots_copy baseOffset src this w = Some (Inr w')"
    using h w'(1) by (simp add: HasSlots_copy_def)
  have rec: "receivers w' = (receivers w)(this \<mapsto> \<lparr>senders = senders h, active = active h\<rparr>)"
    using w'(2) by simp
  have sig: "\<forall>s. signals w' s =
      (if s |\<in>| senders h then map_option (duplicated baseOffset src this) (signals w s)
       else signals w s)"
    using w'(3) by simp
  from copy rec sig show ?thesis by blast
qed

lemma duplicated_id:
  "oldTarget \<notin> getDestination ` set (connectedSlots sg) \<Longrightarrow>
   duplicated baseOffset oldTarget newTarget sg = sg"
proof -
  assume "oldTarget \<notin> getDestination ` set (connectedSlots sg)"
  then have "filter (\<lambda>c. getDestination c = oldTarget) (connectedSlots sg) = []"
    by (auto simp: filter_empty_conv)
  then show ?thesis by (simp add: duplicated_def)
qed

text \<open>
  From here on the bindings to the receiver that is copied were made for classes with
  the \<open>HasSlots\<close> base at offset 0: the copies lead to the new receiver.
\<close>

lemma duplicated_base_first:
  assumes "\<forall>c\<in>set (connectedSlots sg). getDestination c = q \<longrightarrow> baseOffset (functionPtr c) = 0"
  shows "duplicated baseOffset q p sg = duplicated (\<lambda>fn. 0) q p sg"
proof -
  have "map (\<lambda>c. duplicate baseOffset c p) (filter (\<lambda>c. getDestination c = q) (connectedSlots sg)) =
        map (\<lambda>c. duplicate (\<lambda>fn. 0) c p) (filter (\<lambda>c. getDestination c = q) (connectedSlots sg))"
    using assms by (intro map_cong refl) (simp add: duplicate_def)
  then show ?thesis by (simp add: duplicated_def)
qed

lemma copies_miss_base_first:
  assumes "\<forall>c\<in>set cs. getDestination c = q \<longrightarrow> baseOffset (functionPtr c) = 0" and "q \<noteq> p"
  shows "copies_miss baseOffset q p cs"
  using assms by (auto simp: copies_miss_def)

lemma consistent_copy_receiver:
  assumes ok: "consistent w" and h: "receivers w src = Some h" and fresh: "receivers w this = None"
    and rec: "receivers w' = (receivers w)(this \<mapsto> \<lparr>senders = senders h, active = active h\<rparr>)"
    and sig: "\<forall>s. signals w' s = map_option (duplicated (\<lambda>fn. 0) src this) (signals w s)"
  shows "consistent w'"
  unfolding consistent_def
proof (intro conjI allI impI ballI)
  fix s sg' c
  assume s: "signals w' s = Some sg'" and c: "c \<in> set (connectedSlots sg')"
  from s sig obtain sg where sg: "signals w s = Some sg" and sg': "sg' = duplicated (\<lambda>fn. 0) src this sg"
    by (cases "signals w s") auto
  from c sg' consider "c \<in> set (connectedSlots sg)"
    | c0 where "c0 \<in> set (connectedSlots sg)" "getDestination c0 = src" "c = duplicate (\<lambda>fn. 0) c0 this"
    by (auto simp: duplicated_def)
  then show "\<exists>h. receivers w' (getDestination c) = Some h \<and> s |\<in>| senders h"
  proof cases
    case 1
    with ok sg obtain h0 where h0: "receivers w (getDestination c) = Some h0" "s |\<in>| senders h0"
      unfolding consistent_def by blast
    with fresh have "getDestination c \<noteq> this" by auto
    with h0 rec show ?thesis by simp
  next
    case 2
    with ok sg h have "s |\<in>| senders h" unfolding consistent_def by fastforce
    with 2 rec show ?thesis by (simp add: duplicate_def getDestination_def)
  qed
next
  fix r h' t
  assume r: "receivers w' r = Some h'" and t: "t |\<in>| senders h'"
  show "\<exists>sg. signals w' t = Some sg \<and> r \<in> getDestination ` set (connectedSlots sg)"
  proof (cases "r = this")
    case True
    with r rec t have "t |\<in>| senders h" by auto
    with ok h obtain sg c0 where sg: "signals w t = Some sg"
      and c0: "c0 \<in> set (connectedSlots sg)" "getDestination c0 = src"
      unfolding consistent_def by fastforce
    from c0 have "duplicate (\<lambda>fn. 0) c0 this \<in> set (connectedSlots (duplicated (\<lambda>fn. 0) src this sg))"
      by (simp add: duplicated_def)
    then have "this \<in> getDestination ` set (connectedSlots (duplicated (\<lambda>fn. 0) src this sg))"
      by (force simp: duplicate_def getDestination_def)
    with sg sig True show ?thesis by simp
  next
    case False
    with r rec have "receivers w r = Some h'" by simp
    with ok t obtain sg where sg: "signals w t = Some sg"
      "r \<in> getDestination ` set (connectedSlots sg)"
      unfolding consistent_def by blast
    then have "r \<in> getDestination ` set (connectedSlots (duplicated (\<lambda>fn. 0) src this sg))"
      by (auto simp: duplicated_def)
    with sg sig show ?thesis by simp
  qed
qed

lemma HasSlots_copy_result:
  assumes ok: "consistent w" and h: "receivers w src = Some h" and fresh: "receivers w this = None"
    and bf: "base_first baseOffset w src"
  shows "\<exists>w'. HasSlots_copy baseOffset src this w = Some (Inr w') \<and>
           receivers w' = (receivers w)(this \<mapsto> \<lparr>senders = senders h, active = active h\<rparr>) \<and>
           (\<forall>s. signals w' s = map_option (duplicated (\<lambda>fn. 0) src this) (signals w s)) \<and>
           consistent w'"
proof -
  have ne: "src \<noteq> this" using h fresh by auto
  have miss: "\<forall>s. s |\<in>| senders h \<longrightarrow>
      (\<exists>sg. signals w s = Some sg \<and> copies_miss baseOffset src this (connectedSlots sg))"
  proof (intro allI impI)
    fix s assume "s |\<in>| senders h"
    from consistent_senders_live [OF ok h this] obtain sg where sg: "signals w s = Some sg"
      by auto
    from bf sg have "\<forall>c\<in>set (connectedSlots sg).
        getDestination c = src \<longrightarrow> baseOffset (functionPtr c) = 0"
      unfolding base_first_def by blast
    from copies_miss_base_first [OF this ne] sg
    show "\<exists>sg. signals w s = Some sg \<and> copies_miss baseOffset src this (connectedSlots sg)"
      by blast
  qed
  from HasSlots_copy_any_layout [OF h miss] obtain w' where
    copy: "HasSlots_copy baseOffset src this w = Some (Inr w')"
    and rec: "receivers w' = (receivers w)(this \<mapsto> \<lparr>senders = senders h, active = active h\<rparr>)"
    and any: "\<forall>s. signals w' s =
        (if s |\<in>| senders h then map_option (duplicated baseOffset src this) (signals w s)
         else signals w s)"
    by blast
  have sig: "\<forall>s. signals w' s = map_option (duplicated (\<lambda>fn. 0) src this) (signals w s)"
  proof
    fix s
    show "signals w' s = map_option (duplicated (\<lambda>fn. 0) src this) (signals w s)"
    proof (cases "signals w s")
      case None
      with any show ?thesis by simp
    next
      case (Some sg)
      show ?thesis
      proof (cases "s |\<in>| senders h")
        case True
        from bf Some have "\<forall>c\<in>set (connectedSlots sg).
            getDestination c = src \<longrightarrow> baseOffset (functionPtr c) = 0"
          unfolding base_first_def by blast
        from duplicated_base_first [OF this] any True Some show ?thesis by simp
      next
        case False
        have "src \<notin> getDestination ` set (connectedSlots sg)"
        proof
          assume "src \<in> getDestination ` set (connectedSlots sg)"
          then obtain c where "c \<in> set (connectedSlots sg)" "getDestination c = src" by auto
          with ok Some h have "s |\<in>| senders h" unfolding consistent_def by fastforce
          with False show False by simp
        qed
        from duplicated_id [OF this] Some any False show ?thesis by simp
      qed
    qed
  qed
  from consistent_copy_receiver [OF ok h fresh rec sig] copy rec sig show ?thesis by blast
qed

lemma eligible_append: "eligible w (xs @ ys) = eligible w xs @ eligible w ys"
  by (simp add: eligible_def)

lemma eligible_fresh:
  "receivers w' = (receivers w)(p \<mapsto> h) \<Longrightarrow> \<forall>c\<in>set cs. getDestination c \<noteq> p \<Longrightarrow>
   eligible w' cs = eligible w cs"
  by (induction cs) (auto simp: eligible_def isActive_def)

lemma eligible_duplicates:
  "receivers w' p = Some h \<Longrightarrow>
   eligible w' (map (\<lambda>c. duplicate (\<lambda>fn. 0) c p) xs) = (if active h then map (\<lambda>c. duplicate (\<lambda>fn. 0) c p) xs else [])"
  by (induction xs) (auto simp: eligible_def isActive_def duplicate_def getDestination_def)

lemma call_duplicate: "call (duplicate (\<lambda>fn. 0) c p) = (p, functionPtr c)"
  by (simp add: call_def duplicate_def)

lemma eligible_after_copy:
  assumes live: "dests_live w (connectedSlots sg)" and fresh: "receivers w p = None"
    and rec: "receivers w' = (receivers w)(p \<mapsto> h)"
  shows "eligible w' (connectedSlots (duplicated (\<lambda>fn. 0) q p sg)) =
     eligible w (connectedSlots sg) @
     (if active h then map (\<lambda>c. duplicate (\<lambda>fn. 0) c p)
        (filter (\<lambda>c. getDestination c = q) (connectedSlots sg)) else [])"
proof -
  have "\<forall>c\<in>set (connectedSlots sg). getDestination c \<noteq> p"
    using live fresh by (auto simp: dests_live_def)
  from eligible_fresh [OF rec this] have a: "eligible w' (connectedSlots sg) = eligible w (connectedSlots sg)" .
  have "receivers w' p = Some h" using rec by simp
  from eligible_duplicates [OF this] a show ?thesis
    by (simp add: duplicated_def eligible_append)
qed

lemma dests_live_after_copy:
  assumes live: "dests_live w (connectedSlots sg)" and rec: "receivers w' = (receivers w)(p \<mapsto> h)"
  shows "dests_live w' (connectedSlots (duplicated (\<lambda>fn. 0) q p sg))"
  using live rec by (auto simp: dests_live_def duplicated_def duplicate_def getDestination_def)

lemma filter_duplicates:
  "filter (\<lambda>c. getDestination c \<noteq> p) (map (\<lambda>c. duplicate (\<lambda>fn. 0) c p) xs) = [] \<and>
   filter (\<lambda>c. getDestination c = p) (map (\<lambda>c. duplicate (\<lambda>fn. 0) c p) xs) = map (\<lambda>c. duplicate (\<lambda>fn. 0) c p) xs"
  by (induction xs) (simp_all add: duplicate_def getDestination_def)

lemma filter_duplicated_old:
  assumes "\<forall>c\<in>set (connectedSlots sg). getDestination c \<noteq> p"
  shows "filter (\<lambda>c. getDestination c \<noteq> p) (connectedSlots (duplicated (\<lambda>fn. 0) q p sg)) = connectedSlots sg"
proof -
  from assms have "filter (\<lambda>c. getDestination c \<noteq> p) (connectedSlots sg) = connectedSlots sg"
    by (simp add: filter_id_conv)
  with filter_duplicates [of p] show ?thesis by (simp add: duplicated_def)
qed

lemma filter_duplicated_new:
  assumes "\<forall>c\<in>set (connectedSlots sg). getDestination c \<noteq> p"
  shows "filter (\<lambda>c. getDestination c = p) (connectedSlots (duplicated (\<lambda>fn. 0) q p sg)) =
     map (\<lambda>c. duplicate (\<lambda>fn. 0) c p) (filter (\<lambda>c. getDestination c = q) (connectedSlots sg))"
proof -
  from assms have "filter (\<lambda>c. getDestination c = p) (connectedSlots sg) = []"
    by (simp add: filter_empty_conv)
  with filter_duplicates [of p] show ?thesis by (simp add: duplicated_def)
qed

subsection \<open>Every operation keeps the registries in agreement\<close>

text \<open>
  The empty store is consistent, and so is every store that the constructors (at a fresh
  address), \<open>connect\<close>, \<open>disconnect\<close>, \<open>setActive\<close>, the two \<open>disconnectAll\<close>,
  the copy constructors and the destructors make from a consistent one, the copy
  constructor of a receiver when the bindings to the receiver it copies were made for
  classes with the \<open>HasSlots\<close> base at offset 0. So every reachable store is
  consistent: the hypothesis \<open>consistent\<close> of the claims below holds wherever a
  program with such receiver classes can get.
\<close>

lemma consistent_empty: "consistent empty_world"
  by (simp add: consistent_def empty_world_def)

lemma consistent_HasSlots_new:
  assumes ok: "consistent w" and fresh: "receivers w r = None"
  shows "consistent (HasSlots_new r w)"
  unfolding consistent_def
proof (intro conjI allI impI ballI)
  fix s sg c
  assume "signals (HasSlots_new r w) s = Some sg" and c: "c \<in> set (connectedSlots sg)"
  then have "signals w s = Some sg" by (simp add: HasSlots_new_def)
  with ok c obtain h where h: "receivers w (getDestination c) = Some h" "s |\<in>| senders h"
    unfolding consistent_def by blast
  with fresh have "getDestination c \<noteq> r" by auto
  with h show "\<exists>h. receivers (HasSlots_new r w) (getDestination c) = Some h \<and> s |\<in>| senders h"
    by (simp add: HasSlots_new_def)
next
  fix x h s
  assume x: "receivers (HasSlots_new r w) x = Some h" and s: "s |\<in>| senders h"
  then have "x \<noteq> r" by (auto simp: HasSlots_new_def split: if_splits)
  with x have "receivers w x = Some h" by (simp add: HasSlots_new_def)
  with ok s show "\<exists>sg. signals (HasSlots_new r w) s = Some sg \<and>
      x \<in> getDestination ` set (connectedSlots sg)"
    unfolding consistent_def by (simp add: HasSlots_new_def)
qed

lemma consistent_SignalBaseTyped_new:
  assumes ok: "consistent w" and fresh: "signals w s = None"
  shows "consistent (SignalBaseTyped_new s w)"
  unfolding consistent_def
proof (intro conjI allI impI ballI)
  fix t sg c
  assume t: "signals (SignalBaseTyped_new s w) t = Some sg" and c: "c \<in> set (connectedSlots sg)"
  then have "t \<noteq> s" by (auto simp: SignalBaseTyped_new_def split: if_splits)
  with t have "signals w t = Some sg" by (simp add: SignalBaseTyped_new_def)
  with ok c show "\<exists>h. receivers (SignalBaseTyped_new s w) (getDestination c) = Some h \<and> t |\<in>| senders h"
    unfolding consistent_def by (simp add: SignalBaseTyped_new_def)
next
  fix r h t
  assume "receivers (SignalBaseTyped_new s w) r = Some h" and t: "t |\<in>| senders h"
  then have "receivers w r = Some h" by (simp add: SignalBaseTyped_new_def)
  with ok t obtain sg where sg: "signals w t = Some sg"
    "r \<in> getDestination ` set (connectedSlots sg)"
    unfolding consistent_def by blast
  with fresh have "t \<noteq> s" by auto
  with sg show "\<exists>sg. signals (SignalBaseTyped_new s w) t = Some sg \<and>
      r \<in> getDestination ` set (connectedSlots sg)"
    by (simp add: SignalBaseTyped_new_def)
qed

lemma consistent_connect:
  assumes ok: "consistent w" and c: "connect s r f w = Inr w'"
  shows "consistent w'"
proof -
  from c obtain sg where sg: "signals w s = Some sg"
    by (cases "signals w s") (auto simp: connect_def with_signal_def)
  from c sg obtain h where h: "receivers w r = Some h"
    by (cases "receivers w r")
       (auto simp: connect_def with_signal_def signalConnect_def with_receiver_def)
  from connect_result [OF sg h, of f] c
  have w': "w' = w\<lparr>signals := (signals w)(s \<mapsto> sg\<lparr>connectedSlots := connectedSlots sg @ [binding (r, f)]\<rparr>),
                  receivers := (receivers w)(r \<mapsto> remember s h)\<rparr>"
    by simp
  show ?thesis
    unfolding consistent_def
  proof (intro conjI allI impI ballI)
    fix t sg' c
    assume t: "signals w' t = Some sg'" and c: "c \<in> set (connectedSlots sg')"
    show "\<exists>h. receivers w' (getDestination c) = Some h \<and> t |\<in>| senders h"
    proof (cases "t = s \<and> c = binding (r, f)")
      case True
      then show ?thesis unfolding w' by (simp add: binding_def getDestination_def remember_def)
    next
      case False
      with t c w' sg have "\<exists>sg0. signals w t = Some sg0 \<and> c \<in> set (connectedSlots sg0)"
        by (auto split: if_splits)
      with ok obtain h0 where "receivers w (getDestination c) = Some h0" "t |\<in>| senders h0"
        unfolding consistent_def by blast
      with h show ?thesis unfolding w' by (auto simp: remember_def)
    qed
  next
    fix x h' t
    assume x: "receivers w' x = Some h'" and t: "t |\<in>| senders h'"
    show "\<exists>sg. signals w' t = Some sg \<and> x \<in> getDestination ` set (connectedSlots sg)"
    proof (cases "x = r \<and> t = s")
      case True
      then show ?thesis unfolding w' by (simp add: binding_def getDestination_def)
    next
      case False
      with x t w' h have "\<exists>h0. receivers w x = Some h0 \<and> t |\<in>| senders h0"
        by (auto simp: remember_def split: if_splits)
      with ok obtain sg0 where "signals w t = Some sg0"
        "x \<in> getDestination ` set (connectedSlots sg0)"
        unfolding consistent_def by blast
      with sg show ?thesis unfolding w' by auto
    qed
  qed
qed

lemma consistent_disconnect:
  assumes ok: "consistent w" and d: "disconnect s r w = Inr w'"
  shows "consistent w'"
proof -
  from d obtain sg where sg: "signals w s = Some sg"
    by (cases "signals w s") (auto simp: disconnect_def)
  show ?thesis
  proof (cases "r \<in> getDestination ` set (connectedSlots sg)")
    case False
    from disconnect_absent [OF sg False] d ok show ?thesis by simp
  next
    case True
    with ok sg obtain h where h: "receivers w r = Some h"
      unfolding consistent_def by fastforce
    from disconnect_present [OF sg h True] d
    have w': "w' = w\<lparr>receivers := (receivers w)(r \<mapsto> forget s h),
                    signals := (signals w)(s \<mapsto> strip r sg)\<rparr>"
      by simp
    show ?thesis
      unfolding consistent_def
    proof (intro conjI allI impI ballI)
      fix t sg' c
      assume t: "signals w' t = Some sg'" and c: "c \<in> set (connectedSlots sg')"
      from t c w' sg have c0: "\<exists>sg0. signals w t = Some sg0 \<and> c \<in> set (connectedSlots sg0)"
        and ne: "t = s \<longrightarrow> getDestination c \<noteq> r"
        by (auto simp: strip_def split: if_splits)
      from c0 ok obtain h0 where "receivers w (getDestination c) = Some h0" "t |\<in>| senders h0"
        unfolding consistent_def by blast
      with ne h show "\<exists>h. receivers w' (getDestination c) = Some h \<and> t |\<in>| senders h"
        unfolding w' by (auto simp: forget_def)
    next
      fix x h' t
      assume x: "receivers w' x = Some h'" and t: "t |\<in>| senders h'"
      from x t w' h have x0: "\<exists>h0. receivers w x = Some h0 \<and> t |\<in>| senders h0"
        and ne: "x = r \<longrightarrow> t \<noteq> s"
        by (auto simp: forget_def split: if_splits)
      from x0 ok obtain sg0 where sg0: "signals w t = Some sg0"
        "x \<in> getDestination ` set (connectedSlots sg0)"
        unfolding consistent_def by blast
      show "\<exists>sg. signals w' t = Some sg \<and> x \<in> getDestination ` set (connectedSlots sg)"
      proof (cases "t = s")
        case False
        with sg0 show ?thesis unfolding w' by simp
      next
        case True
        with ne have "x \<noteq> r" by simp
        with sg0 True sg have "x \<in> getDestination ` set (connectedSlots (strip r sg))"
          by (auto simp: strip_def)
        with True show ?thesis unfolding w' by simp
      qed
    qed
  qed
qed

lemma consistent_setActive:
  assumes ok: "consistent w" and a: "setActive r b w = Inr w'"
  shows "consistent w'"
proof -
  from a obtain h where h: "receivers w r = Some h"
    by (cases "receivers w r") (auto simp: setActive_def with_receiver_def)
  from setActive_result [OF h, of b] a
  have w': "w' = w\<lparr>receivers := (receivers w)(r \<mapsto> h\<lparr>active := b\<rparr>)\<rparr>" by simp
  show ?thesis
    unfolding consistent_def
  proof (intro conjI allI impI ballI)
    fix t sg c
    assume "signals w' t = Some sg" and c: "c \<in> set (connectedSlots sg)"
    then have "signals w t = Some sg" unfolding w' by simp
    with ok c obtain h0 where "receivers w (getDestination c) = Some h0" "t |\<in>| senders h0"
      unfolding consistent_def by blast
    with h show "\<exists>h. receivers w' (getDestination c) = Some h \<and> t |\<in>| senders h"
      unfolding w' by auto
  next
    fix x h' t
    assume "receivers w' x = Some h'" and "t |\<in>| senders h'"
    with h have "\<exists>h0. receivers w x = Some h0 \<and> t |\<in>| senders h0"
      unfolding w' by (auto split: if_splits)
    with ok obtain sg0 where "signals w t = Some sg0"
      "x \<in> getDestination ` set (connectedSlots sg0)"
      unfolding consistent_def by blast
    then show "\<exists>sg. signals w' t = Some sg \<and> x \<in> getDestination ` set (connectedSlots sg)"
      unfolding w' by simp
  qed
qed

lemma consistent_SignalBaseTyped_disconnectAll:
  assumes ok: "consistent w" and sg: "signals w s = Some sg"
  shows "\<exists>w'. SignalBaseTyped_disconnectAll s w = Inr w' \<and> consistent w'"
proof -
  from disconnectAll_result [OF sg consistent_dests_live [OF ok sg]] obtain w' where
    w': "SignalBaseTyped_disconnectAll s w = Inr w'"
      "signals w' = (signals w)(s \<mapsto> sg\<lparr>connectedSlots := []\<rparr>)"
      "\<forall>r. receivers w' r =
         (if r \<in> getDestination ` set (connectedSlots sg)
          then map_option (forget s) (receivers w r) else receivers w r)"
    by blast
  have "consistent w'"
    unfolding consistent_def
  proof (intro conjI allI impI ballI)
    fix t sg' c
    assume t: "signals w' t = Some sg'" and c: "c \<in> set (connectedSlots sg')"
    with w'(2) have ne: "t \<noteq> s" and t0: "signals w t = Some sg'"
      by (auto split: if_splits)
    from ok t0 c obtain h0 where "receivers w (getDestination c) = Some h0" "t |\<in>| senders h0"
      unfolding consistent_def by blast
    with ne w'(3) show "\<exists>h. receivers w' (getDestination c) = Some h \<and> t |\<in>| senders h"
      by (auto simp: forget_def)
  next
    fix r h' t
    assume r: "receivers w' r = Some h'" and t: "t |\<in>| senders h'"
    from r t w'(3) have r0: "\<exists>h0. receivers w r = Some h0 \<and> t |\<in>| senders h0"
      and ne: "r \<in> getDestination ` set (connectedSlots sg) \<longrightarrow> t \<noteq> s"
      by (auto simp: forget_def split: if_splits)
    from r0 ok obtain sg0 where sg0: "signals w t = Some sg0"
      "r \<in> getDestination ` set (connectedSlots sg0)"
      unfolding consistent_def by blast
    with sg ne have "t \<noteq> s" by auto
    with sg0 w'(2) show "\<exists>sg. signals w' t = Some sg \<and> r \<in> getDestination ` set (connectedSlots sg)"
      by simp
  qed
  with w'(1) show ?thesis by blast
qed

lemma consistent_HasSlots_disconnectAll:
  assumes ok: "consistent w" and h: "receivers w r = Some h"
  shows "\<exists>w'. HasSlots_disconnectAll r w = Inr w' \<and> consistent w'"
proof -
  from HasSlots_destroy_result [OF ok h] obtain w3 where
    w3: "HasSlots_destroy r w = Inr w3" "receivers w3 = (receivers w)(r := None)"
      "\<forall>s. signals w3 s = map_option (strip r) (signals w s)" "consistent w3"
    by blast
  from w3(1) obtain w2 where w2: "HasSlots_disconnectAll r w = Inr w2"
    and w32: "w3 = w2\<lparr>receivers := (receivers w2)(r := None)\<rparr>"
    by (auto simp: HasSlots_destroy_def split: sum.splits)
  from w2 h have r2: "\<exists>h2. receivers w2 r = Some h2 \<and> senders h2 = {||}"
    by (auto simp: HasSlots_disconnectAll_def with_receiver_def split: sum.splits option.splits)
  have sig: "signals w2 = signals w3" using w32 by simp
  have rec: "\<forall>x. x \<noteq> r \<longrightarrow> receivers w2 x = receivers w3 x" using w32 by simp
  have "consistent w2"
    unfolding consistent_def
  proof (intro conjI allI impI ballI)
    fix t sg' c
    assume "signals w2 t = Some sg'" and c: "c \<in> set (connectedSlots sg')"
    with sig have t3: "signals w3 t = Some sg'" by simp
    with w3(4) c obtain h0 where h0: "receivers w3 (getDestination c) = Some h0" "t |\<in>| senders h0"
      unfolding consistent_def by blast
    with w3(2) have "getDestination c \<noteq> r" by (auto split: if_splits)
    with h0 rec show "\<exists>h. receivers w2 (getDestination c) = Some h \<and> t |\<in>| senders h" by simp
  next
    fix x h' t
    assume x: "receivers w2 x = Some h'" and t: "t |\<in>| senders h'"
    with r2 have "x \<noteq> r" by auto
    with x rec have "receivers w3 x = Some h'" by simp
    with w3(4) t sig show "\<exists>sg. signals w2 t = Some sg \<and> x \<in> getDestination ` set (connectedSlots sg)"
      unfolding consistent_def by simp
  qed
  with w2 show ?thesis by blast
qed

lemma consistent_SignalBaseTyped_copy:
  assumes ok: "consistent w" and fresh: "signals w this = None"
    and c: "SignalBaseTyped_copy src this w = Inr w'"
  shows "consistent w'"
proof -
  from c obtain sg where sg: "signals w src = Some sg"
    by (cases "signals w src") (auto simp: SignalBaseTyped_copy_def)
  let ?w0 = "w\<lparr>signals := (signals w)(this \<mapsto> \<lparr>connectedSlots = []\<rparr>)\<rparr>"
  have sg0: "signals ?w0 this = Some \<lparr>connectedSlots = []\<rparr>" by simp
  have live: "\<forall>c\<in>set (connectedSlots sg). receivers ?w0 (getDestination c) \<noteq> None"
    using consistent_dests_live [OF ok sg] by (simp add: dests_live_def)
  from SignalBaseTyped_copy_loop_result [OF sg0 live] obtain w1 where
    w1: "SignalBaseTyped_copy_loop this (connectedSlots sg) ?w0 = Inr w1"
      "signals w1 = (signals ?w0)(this \<mapsto> \<lparr>connectedSlots = []\<rparr>\<lparr>connectedSlots := connectedSlots \<lparr>connectedSlots = []\<rparr> @ connectedSlots sg\<rparr>)"
      "\<forall>r. receivers w1 r =
        (if r \<in> getDestination ` set (connectedSlots sg)
         then map_option (remember this) (receivers ?w0 r) else receivers ?w0 r)"
    by blast
  from c sg w1(1) have eq: "w' = w1" by (simp add: SignalBaseTyped_copy_def)
  have sig: "signals w' = (signals w)(this \<mapsto> \<lparr>connectedSlots = connectedSlots sg\<rparr>)"
    using w1(2) eq by simp
  have rec: "\<forall>r. receivers w' r =
        (if r \<in> getDestination ` set (connectedSlots sg)
         then map_option (remember this) (receivers w r) else receivers w r)"
    using w1(3) eq by simp
  from consistent_copy_signal [OF ok sg fresh sig rec] show ?thesis .
qed

lemma consistent_HasSlots_copy:
  assumes ok: "consistent w" and fresh: "receivers w this = None"
    and bf: "base_first baseOffset w src"
    and c: "HasSlots_copy baseOffset src this w = Some (Inr w')"
  shows "consistent w'"
proof -
  from c obtain h where h: "receivers w src = Some h"
    by (cases "receivers w src") (auto simp: HasSlots_copy_def)
  from HasSlots_copy_result [OF ok h fresh bf] c show ?thesis by auto
qed

lemma base_first_zero: "base_first (\<lambda>fn. 0) w r"
  by (simp add: base_first_def)

lemma consistent_SignalBaseTyped_destroy:
  assumes ok: "consistent w" and d: "SignalBaseTyped_destroy s w = Inr w'"
  shows "consistent w'"
proof -
  from d obtain sg where sg: "signals w s = Some sg"
    by (cases "signals w s") (auto simp: SignalBaseTyped_destroy_def)
  from SignalBaseTyped_destroy_result [OF ok sg] d show ?thesis by auto
qed

lemma consistent_HasSlots_destroy:
  assumes ok: "consistent w" and d: "HasSlots_destroy r w = Inr w'"
  shows "consistent w'"
proof -
  from d obtain h where h: "receivers w r = Some h"
    by (cases "receivers w r") (auto simp: HasSlots_destroy_def HasSlots_disconnectAll_def)
  from HasSlots_destroy_result [OF ok h] d show ?thesis by auto
qed

lemma reachable_consistent: "reachable w \<Longrightarrow> consistent w"
proof (induction rule: reachable.induct)
  case start
  show ?case by (rule consistent_empty)
next
  case (new_receiver w r)
  then show ?case by (simp add: consistent_HasSlots_new)
next
  case (new_signal w s)
  then show ?case by (simp add: consistent_SignalBaseTyped_new)
next
  case (connected w s r f w')
  then show ?case using consistent_connect by blast
next
  case (disconnected w s r w')
  then show ?case using consistent_disconnect by blast
next
  case (flagged w r b w')
  then show ?case using consistent_setActive by blast
next
  case (signal_cleared w s w')
  from signal_cleared(2) obtain sg where "signals w s = Some sg"
    by (cases "signals w s") (auto simp: SignalBaseTyped_disconnectAll_def)
  from consistent_SignalBaseTyped_disconnectAll [OF signal_cleared(3) this] signal_cleared(2)
  show ?case by auto
next
  case (receiver_cleared w r w')
  from receiver_cleared(2) obtain h where "receivers w r = Some h"
    by (cases "receivers w r") (auto simp: HasSlots_disconnectAll_def)
  from consistent_HasSlots_disconnectAll [OF receiver_cleared(3) this] receiver_cleared(2)
  show ?case by auto
next
  case (signal_copied w this src w')
  then show ?case using consistent_SignalBaseTyped_copy by blast
next
  case (receiver_copied w this src w')
  then show ?case using consistent_HasSlots_copy [OF _ _ base_first_zero] by blast
next
  case (signal_destroyed w s w')
  then show ?case using consistent_SignalBaseTyped_destroy by blast
next
  case (receiver_destroyed w r w')
  then show ?case using consistent_HasSlots_destroy by blast
qed

subsection \<open>When \<open>duplicateSlot\<close> does not return\<close>

text \<open>When the copies lead to the old target again (so when \<open>duplicateSlot\<close> is called
  with the same receiver as old and new target, its \<open>HasSlots\<close> base at offset 0), the
  loop runs for ever as soon as one binding ahead of the iterator points to the old
  target: every copy it appends matches again.\<close>

lemma duplicateSlot_loop_returns_only_if:
  assumes ret: "duplicateSlot_loop baseOffset oldTarget newTarget i cs = Some y"
  shows "\<not> ((\<forall>fn. newTarget + baseOffset fn = oldTarget) \<and>
            (\<exists>j. i \<le> j \<and> j < length cs \<and> getDestination (cs ! j) = oldTarget))"
proof (rule duplicateSlot_loop.raw_induct
    [where P = "\<lambda>bo a b i cs y. \<not> ((\<forall>fn. b + bo fn = a) \<and>
        (\<exists>j. i \<le> j \<and> j < length cs \<and> getDestination (cs ! j) = a))",
     OF _ ret])
  fix f :: "(nat \<Rightarrow> nat) \<Rightarrow> nat \<Rightarrow> nat \<Rightarrow> nat \<Rightarrow> Connection list \<Rightarrow> Connection list option"
  fix bo :: "nat \<Rightarrow> nat"
  fix a b i cs y
  assume IH: "\<And>bo a b i cs y. f bo a b i cs = Some y \<Longrightarrow>
      \<not> ((\<forall>fn. b + bo fn = a) \<and>
         (\<exists>j. i \<le> j \<and> j < length cs \<and> getDestination (cs ! j) = a))"
  assume body: "(if i < length cs
      then if getDestination (cs ! i) = a
           then f bo a b (Suc i) (cs @ [duplicate bo (cs ! i) b])
           else f bo a b (Suc i) cs
      else Some cs) = Some y"
  show "\<not> ((\<forall>fn. b + bo fn = a) \<and>
      (\<exists>j. i \<le> j \<and> j < length cs \<and> getDestination (cs ! j) = a))"
  proof
    assume m: "(\<forall>fn. b + bo fn = a) \<and>
      (\<exists>j. i \<le> j \<and> j < length cs \<and> getDestination (cs ! j) = a)"
    then obtain j where j: "i \<le> j" "j < length cs" "getDestination (cs ! j) = a"
      and eq: "\<forall>fn. b + bo fn = a"
      by blast
    then have lt: "i < length cs" by simp
    show False
    proof (cases "getDestination (cs ! i) = a")
      case True
      let ?cs' = "cs @ [duplicate bo (cs ! i) b]"
      from body lt True have "f bo a b (Suc i) ?cs' = Some y" by simp
      from IH [OF this] eq
      have n: "\<not> (\<exists>k. Suc i \<le> k \<and> k < length ?cs' \<and> getDestination (?cs' ! k) = a)"
        by simp
      have "Suc i \<le> length cs \<and> length cs < length ?cs' \<and>
          getDestination (?cs' ! length cs) = a"
        using lt eq by (simp add: duplicate_def getDestination_def)
      with n show False by blast
    next
      case False
      from body lt False have "f bo a b (Suc i) cs = Some y" by simp
      from IH [OF this] eq
      have n: "\<not> (\<exists>k. Suc i \<le> k \<and> k < length cs \<and> getDestination (cs ! k) = a)"
        by simp
      from j False have "j \<noteq> i" by auto
      with j have "Suc i \<le> j" by simp
      with j n show False by blast
    qed
  qed
qed

lemma duplicateSlot_loop_diverges:
  assumes "\<forall>fn. newTarget + baseOffset fn = oldTarget"
    and "i \<le> j" and "j < length cs" and "getDestination (cs ! j) = oldTarget"
  shows "duplicateSlot_loop baseOffset oldTarget newTarget i cs = None"
proof (cases "duplicateSlot_loop baseOffset oldTarget newTarget i cs")
  case None
  then show ?thesis .
next
  case (Some y)
  from duplicateSlot_loop_returns_only_if [OF Some] assms show ?thesis by blast
qed

subsection \<open>The store with two bindings to one receiver\<close>

lemma doubled_reachable:
  "connect_all 1 [(10, 1), (11, 2), (10, 3)]
     (HasSlots_new 11 (HasSlots_new 10 (SignalBaseTyped_new 1 empty_world))) = Inr doubled"
  by (simp add: HasSlots_new_def SignalBaseTyped_new_def empty_world_def
      doubled_def connect_def with_signal_def signalConnect_def with_receiver_def binding_def,
      rule ext, simp)

lemma doubled_consistent: "consistent doubled"
  by (auto simp: consistent_def doubled_def binding_def getDestination_def split: if_splits)

lemma wired_is_reachable: "reachable wired"
proof -
  have r0: "reachable three_receivers"
    unfolding three_receivers_def
    by (intro reachable.new_receiver reachable.new_signal reachable.start)
       (simp_all add: empty_world_def HasSlots_new_def SignalBaseTyped_new_def)
  from wired_reachable obtain w1 w2 where
    c: "connect 1 10 1 three_receivers = Inr w1" "connect 1 11 2 w1 = Inr w2"
      "connect 1 12 3 w2 = Inr wired"
    by (auto split: sum.splits)
  from reachable.connected [OF reachable.connected [OF reachable.connected [OF r0 c(1)] c(2)] c(3)]
  show ?thesis .
qed

subsection \<open>Copying a receiver whose \<open>HasSlots\<close> base comes first\<close>

text \<open>
  Let the registries agree, \<open>R1\<close> be a live receiver all of whose bindings were made
  for classes with the \<open>HasSlots\<close> base at offset 0, and \<open>R2\<close> the address of the
  copy. Then the copy constructor returns; \<open>R2\<close> has the \<open>senders\<close> and the flag of
  \<open>R1\<close>; the other receivers are as before; in every live signal the bindings that do
  not point to \<open>R2\<close> are the bindings from before the copy and the bindings to \<open>R2\<close>
  are the bindings to \<open>R1\<close>, retargeted, one for one; the registries agree again; and
  an emit calls, for each binding to \<open>R1\<close>, the member function on \<open>R1\<close> and on
  \<open>R2\<close>.
\<close>

lemma copy_base_first_clones_inbound:
  assumes ok: "consistent w"
    and h1: "receivers w R1 = Some h1"
    and fresh: "receivers w R2 = None"
    and bf: "base_first baseOffset w R1"
  shows "\<exists>w'. HasSlots_copy baseOffset R1 R2 w = Some (Inr w') \<and>
           receivers w' R2 = Some \<lparr>senders = senders h1, active = active h1\<rparr> \<and>
           receivers w' R1 = Some h1 \<and>
           (\<forall>r. r \<noteq> R2 \<longrightarrow> receivers w' r = receivers w r) \<and>
           consistent w' \<and>
           (\<forall>s. signals w s = None \<longrightarrow> signals w' s = None) \<and>
           (\<forall>s sg. signals w s = Some sg \<longrightarrow>
              (\<exists>sg'. signals w' s = Some sg' \<and>
                 filter (\<lambda>c. getDestination c \<noteq> R2) (connectedSlots sg') = connectedSlots sg \<and>
                 filter (\<lambda>c. getDestination c = R2) (connectedSlots sg') =
                   map (\<lambda>c. duplicate (\<lambda>fn. 0) c R2)
                     (filter (\<lambda>c. getDestination c = R1) (connectedSlots sg))) \<and>
              (s |\<notin>| senders h1 \<longrightarrow> signals w' s = Some sg) \<and>
              (quiet run args \<and> active h1 \<longrightarrow>
                 (\<forall>c\<in>set (connectedSlots sg). getDestination c = R1 \<longrightarrow>
                    (R1, functionPtr c) \<in> set (fst (snd (shoot run s args w' u))) \<and>
                    (R2, functionPtr c) \<in> set (fst (snd (shoot run s args w' u))))))"
proof -
  let ?h2 = "\<lparr>senders = senders h1, active = active h1\<rparr>"
  from HasSlots_copy_result [OF ok h1 fresh bf] obtain w' where
    w': "HasSlots_copy baseOffset R1 R2 w = Some (Inr w')"
      "receivers w' = (receivers w)(R2 \<mapsto> ?h2)"
      "\<forall>s. signals w' s = map_option (duplicated (\<lambda>fn. 0) R1 R2) (signals w s)"
      "consistent w'"
    by blast
  have ne: "R1 \<noteq> R2" using h1 fresh by auto
  have r2: "receivers w' R2 = Some ?h2" using w'(2) by simp
  have r1: "receivers w' R1 = Some h1" using w'(2) h1 ne by simp
  have others: "\<forall>r. r \<noteq> R2 \<longrightarrow> receivers w' r = receivers w r" using w'(2) by simp
  have dead: "\<forall>s. signals w s = None \<longrightarrow> signals w' s = None" using w'(3) by simp
  have per: "\<forall>s sg. signals w s = Some sg \<longrightarrow>
      (\<exists>sg'. signals w' s = Some sg' \<and>
         filter (\<lambda>c. getDestination c \<noteq> R2) (connectedSlots sg') = connectedSlots sg \<and>
         filter (\<lambda>c. getDestination c = R2) (connectedSlots sg') =
           map (\<lambda>c. duplicate (\<lambda>fn. 0) c R2) (filter (\<lambda>c. getDestination c = R1) (connectedSlots sg))) \<and>
      (s |\<notin>| senders h1 \<longrightarrow> signals w' s = Some sg) \<and>
      (quiet run args \<and> active h1 \<longrightarrow>
         (\<forall>c\<in>set (connectedSlots sg). getDestination c = R1 \<longrightarrow>
            (R1, functionPtr c) \<in> set (fst (snd (shoot run s args w' u))) \<and>
            (R2, functionPtr c) \<in> set (fst (snd (shoot run s args w' u)))))"
  proof (intro allI impI)
    fix s sg assume sg: "signals w s = Some sg"
    let ?cs = "connectedSlots sg"
    let ?sg' = "duplicated (\<lambda>fn. 0) R1 R2 sg"
    let ?dups = "map (\<lambda>c. duplicate (\<lambda>fn. 0) c R2) (filter (\<lambda>c. getDestination c = R1) ?cs)"
    have sg': "signals w' s = Some ?sg'" using w'(3) sg by simp
    have live: "dests_live w ?cs" using consistent_dests_live [OF ok sg] .
    have old: "\<forall>c\<in>set ?cs. getDestination c \<noteq> R2"
      using live fresh by (auto simp: dests_live_def)
    have f1: "filter (\<lambda>c. getDestination c \<noteq> R2) (connectedSlots ?sg') = ?cs"
      using filter_duplicated_old [OF old] .
    have f2: "filter (\<lambda>c. getDestination c = R2) (connectedSlots ?sg') = ?dups"
      using filter_duplicated_new [OF old] .
    have unbound: "s |\<notin>| senders h1 \<longrightarrow> signals w' s = Some sg"
    proof
      assume n: "s |\<notin>| senders h1"
      have "R1 \<notin> getDestination ` set ?cs"
      proof
        assume "R1 \<in> getDestination ` set ?cs"
        then obtain c where "c \<in> set ?cs" "getDestination c = R1" by auto
        with ok sg h1 have "s |\<in>| senders h1" unfolding consistent_def by fastforce
        with n show False by simp
      qed
      from duplicated_id [OF this] sg' show "signals w' s = Some sg" by simp
    qed
    have emit: "quiet run args \<and> active h1 \<longrightarrow>
         (\<forall>c\<in>set ?cs. getDestination c = R1 \<longrightarrow>
            (R1, functionPtr c) \<in> set (fst (snd (shoot run s args w' u))) \<and>
            (R2, functionPtr c) \<in> set (fst (snd (shoot run s args w' u))))"
    proof (intro impI ballI)
      fix c
      assume qa: "quiet run args \<and> active h1" and c: "c \<in> set ?cs" and d: "getDestination c = R1"
      from qa have q: "quiet run args" and a: "active h1" by simp_all
      from shoot_returns [OF sg' consistent_dests_live [OF w'(4) sg'] q, of u] obtain u' where
        sh: "shoot run s args w' u = (w', map call (eligible w' (connectedSlots ?sg')), Returned u')"
        by blast
      have el: "eligible w' (connectedSlots ?sg') = eligible w ?cs @ ?dups"
        using eligible_after_copy [OF live fresh w'(2), of R1] a by simp
      have "isActive (getDestination c) w = Inr True"
        using d h1 a by (simp add: isActive_def)
      with c have "c \<in> set (eligible w ?cs)" by (simp add: eligible_def)
      then have m1: "call c \<in> set (map call (eligible w' (connectedSlots ?sg')))"
        unfolding el by simp
      have mc: "map call ?dups =
          map (\<lambda>x. (R2, functionPtr x)) (filter (\<lambda>c. getDestination c = R1) ?cs)"
        by (simp add: call_duplicate comp_def)
      have x: "(R2, functionPtr c) \<in>
          set (map (\<lambda>x. (R2, functionPtr x)) (filter (\<lambda>c. getDestination c = R1) ?cs))"
        using c d by auto
      have m2: "(R2, functionPtr c) \<in> set (map call (eligible w' (connectedSlots ?sg')))"
        unfolding el by (simp only: map_append set_append mc Un_iff x simp_thms)
      from m1 m2 d show "(R1, functionPtr c) \<in> set (fst (snd (shoot run s args w' u))) \<and>
            (R2, functionPtr c) \<in> set (fst (snd (shoot run s args w' u)))"
        unfolding sh by (simp add: call_def getDestination_def)
    qed
    from sg' f1 f2 unbound emit
    show "(\<exists>sg'. signals w' s = Some sg' \<and>
         filter (\<lambda>c. getDestination c \<noteq> R2) (connectedSlots sg') = connectedSlots sg \<and>
         filter (\<lambda>c. getDestination c = R2) (connectedSlots sg') =
           map (\<lambda>c. duplicate (\<lambda>fn. 0) c R2) (filter (\<lambda>c. getDestination c = R1) (connectedSlots sg))) \<and>
      (s |\<notin>| senders h1 \<longrightarrow> signals w' s = Some sg) \<and>
      (quiet run args \<and> active h1 \<longrightarrow>
         (\<forall>c\<in>set (connectedSlots sg). getDestination c = R1 \<longrightarrow>
            (R1, functionPtr c) \<in> set (fst (snd (shoot run s args w' u))) \<and>
            (R2, functionPtr c) \<in> set (fst (snd (shoot run s args w' u)))))"
      by blast
  qed
  from w'(1,4) r2 r1 others dead per show ?thesis by blast
qed

text \<open>
  Under the same hypotheses the bindings after the copy are the bindings from before,
  in their positions, followed by the copies; an emit makes first the calls that an emit
  before the copy makes, then the calls on \<open>R2\<close>.
\<close>

lemma copy_base_first_appends_last:
  assumes ok: "consistent w"
    and h1: "receivers w R1 = Some h1"
    and fresh: "receivers w R2 = None"
    and bf: "base_first baseOffset w R1"
    and sg: "signals w s = Some sg"
  shows "\<exists>w' sg'. HasSlots_copy baseOffset R1 R2 w = Some (Inr w') \<and> signals w' s = Some sg' \<and>
           connectedSlots sg' = connectedSlots sg @
             map (\<lambda>c. duplicate (\<lambda>fn. 0) c R2) (filter (\<lambda>c. getDestination c = R1) (connectedSlots sg)) \<and>
           take (length (connectedSlots sg)) (connectedSlots sg') = connectedSlots sg \<and>
           (quiet run args \<longrightarrow>
              (\<exists>u0 u'.
                 shoot run s args w u = (w, map call (eligible w (connectedSlots sg)), Returned u0) \<and>
                 shoot run s args w' u =
                   (w', map call (eligible w (connectedSlots sg)) @
                        (if active h1
                         then map (\<lambda>c. (R2, functionPtr c))
                                (filter (\<lambda>c. getDestination c = R1) (connectedSlots sg))
                         else []),
                    Returned u')))"
proof -
  let ?cs = "connectedSlots sg"
  let ?h2 = "\<lparr>senders = senders h1, active = active h1\<rparr>"
  from HasSlots_copy_result [OF ok h1 fresh bf] obtain w' where
    w': "HasSlots_copy baseOffset R1 R2 w = Some (Inr w')"
      "receivers w' = (receivers w)(R2 \<mapsto> ?h2)"
      "\<forall>s. signals w' s = map_option (duplicated (\<lambda>fn. 0) R1 R2) (signals w s)"
      "consistent w'"
    by blast
  let ?sg' = "duplicated (\<lambda>fn. 0) R1 R2 sg"
  have sg': "signals w' s = Some ?sg'" using w'(3) sg by simp
  have cs': "connectedSlots ?sg' = ?cs @
      map (\<lambda>c. duplicate (\<lambda>fn. 0) c R2) (filter (\<lambda>c. getDestination c = R1) ?cs)"
    by (simp add: duplicated_def)
  have tk: "take (length ?cs) (connectedSlots ?sg') = ?cs"
    by (simp add: cs')
  have live: "dests_live w ?cs" using consistent_dests_live [OF ok sg] .
  have el: "eligible w' (connectedSlots ?sg') = eligible w ?cs @
      (if active ?h2 then map (\<lambda>c. duplicate (\<lambda>fn. 0) c R2) (filter (\<lambda>c. getDestination c = R1) ?cs) else [])"
    using eligible_after_copy [OF live fresh w'(2)] .
  have calls: "map call (eligible w' (connectedSlots ?sg')) = map call (eligible w ?cs) @
      (if active h1 then map (\<lambda>c. (R2, functionPtr c)) (filter (\<lambda>c. getDestination c = R1) ?cs) else [])"
    unfolding el by (simp add: call_duplicate comp_def)
  have emit: "quiet run args \<longrightarrow>
      (\<exists>u0 u'.
         shoot run s args w u = (w, map call (eligible w ?cs), Returned u0) \<and>
         shoot run s args w' u =
           (w', map call (eligible w ?cs) @
                (if active h1
                 then map (\<lambda>c. (R2, functionPtr c)) (filter (\<lambda>c. getDestination c = R1) ?cs)
                 else []),
            Returned u'))"
  proof
    assume q: "quiet run args"
    from shoot_returns [OF sg live q, of u] obtain u0 where
      a: "shoot run s args w u = (w, map call (eligible w ?cs), Returned u0)" by blast
    from shoot_returns [OF sg' consistent_dests_live [OF w'(4) sg'] q, of u] obtain u' where
      "shoot run s args w' u = (w', map call (eligible w' (connectedSlots ?sg')), Returned u')"
      by blast
    then have b: "shoot run s args w' u =
           (w', map call (eligible w ?cs) @
                (if active h1
                 then map (\<lambda>c. (R2, functionPtr c)) (filter (\<lambda>c. getDestination c = R1) ?cs)
                 else []),
            Returned u')"
      unfolding calls .
    from a b show "\<exists>u0 u'.
         shoot run s args w u = (w, map call (eligible w ?cs), Returned u0) \<and>
         shoot run s args w' u =
           (w', map call (eligible w ?cs) @
                (if active h1
                 then map (\<lambda>c. (R2, functionPtr c)) (filter (\<lambda>c. getDestination c = R1) ?cs)
                 else []),
            Returned u')"
      by blast
  qed
  from w'(1) sg' cs' tk emit show ?thesis by blast
qed

subsection \<open>The store with receivers behind another base\<close>

lemma bound_pair_connected:
  "connect_all 1 [(100, 7), (300, 9)]
     (HasSlots_new 300 (HasSlots_new 100 (SignalBaseTyped_new 1 empty_world))) = Inr bound_pair"
  by (simp add: HasSlots_new_def SignalBaseTyped_new_def empty_world_def
      connect_def with_signal_def with_receiver_def signalConnect_def bound_pair_def binding_def)

lemma bound_pair_consistent: "consistent bound_pair"
  by (auto simp: consistent_def bound_pair_def binding_def getDestination_def split: if_splits)

text \<open>The copy constructor on the receiver at 100, for the copy at 200: the binding it
  appends leads to 208, where no receiver is, and the copy records the signal.\<close>

lemma bound_pair_copy:
  "\<exists>w'. HasSlots_copy second_base 100 200 bound_pair = Some (Inr w') \<and>
     receivers w' = (receivers bound_pair)(200 \<mapsto> \<lparr>senders = {|1|}, active = True\<rparr>) \<and>
     signals w' 1 =
       Some \<lparr>connectedSlots = [binding (100, 7), binding (300, 9), binding (208, 7)]\<rparr>"
proof -
  let ?h = "\<lparr>senders = {|1::nat|}, active = True\<rparr>"
  let ?sg = "\<lparr>connectedSlots = [binding (100, 7), binding (300, 9)]\<rparr>"
  have h: "receivers bound_pair 100 = Some ?h"
    by (simp add: bound_pair_def)
  have sg: "signals bound_pair 1 = Some ?sg"
    by (simp add: bound_pair_def)
  have cm: "copies_miss second_base 100 200 (connectedSlots ?sg)"
    by (simp add: copies_miss_def second_base_def)
  have miss: "\<forall>s. s |\<in>| senders ?h \<longrightarrow>
      (\<exists>sg. signals bound_pair s = Some sg \<and> copies_miss second_base 100 200 (connectedSlots sg))"
    using sg cm by simp
  from HasSlots_copy_any_layout [OF h miss] obtain w' where
    w': "HasSlots_copy second_base 100 200 bound_pair = Some (Inr w')"
      "receivers w' = (receivers bound_pair)(200 \<mapsto> \<lparr>senders = senders ?h, active = active ?h\<rparr>)"
      "\<forall>s. signals w' s =
        (if s |\<in>| senders ?h then map_option (duplicated second_base 100 200) (signals bound_pair s)
         else signals bound_pair s)"
    by blast
  have d: "duplicated second_base 100 200 ?sg =
      \<lparr>connectedSlots = [binding (100, 7), binding (300, 9), binding (208, 7)]\<rparr>"
    by (simp add: duplicated_def duplicate_def second_base_def binding_def getDestination_def)
  from w'(3) have "signals w' 1 = map_option (duplicated second_base 100 200) (signals bound_pair 1)"
    by simp
  then have "signals w' 1 =
      Some \<lparr>connectedSlots = [binding (100, 7), binding (300, 9), binding (208, 7)]\<rparr>"
    unfolding sg by (simp only: option.map d)
  with w'(1,2) show ?thesis by auto
qed

lemma bound_pair_emit:
  assumes "receivers w' = (receivers bound_pair)(200 \<mapsto> \<lparr>senders = {|1|}, active = True\<rparr>)"
    and "signals w' 1 =
       Some \<lparr>connectedSlots = [binding (100, 7), binding (300, 9), binding (208, 7)]\<rparr>"
  shows "shoot log_run 1 5 w' [] = (w', [(100, 7), (300, 9)], Undefined (DeadReceiver 208))"
  using assms
  by (simp add: shoot_def isActive_def with_receiver_def bound_pair_def binding_def
      getDestination_def log_run_def)

subsection \<open>The claims\<close>

text \<open>
  C1. Two-sided teardown. Let the registries agree (\<open>consistent\<close>) and let the live signal
  \<open>E\<close> have a binding to the live receiver \<open>R\<close>. Destroying \<open>R\<close> succeeds, leaves no
  signal with a binding to \<open>R\<close> (\<open>E\<close> keeps its other bindings), and an emit on \<open>E\<close>
  afterwards calls no slot of \<open>R\<close> and dereferences no dead object. Destroying \<open>E\<close>
  instead succeeds and removes \<open>E\<close> from the \<open>senders\<close> of \<open>R\<close> and of every other
  receiver, so that destroying \<open>R\<close> afterwards succeeds too: it reaches no dead signal.
  The registries agree again after each destruction.
\<close>

theorem two_sided_teardown:
  assumes ok: "consistent w"
    and sg: "signals w E = Some sg"
    and h: "receivers w R = Some h"
    and conn: "R \<in> getDestination ` set (connectedSlots sg)"
  shows "(\<exists>w'. HasSlots_destroy R w = Inr w' \<and> receivers w' R = None \<and> consistent w' \<and>
            signals w' E = Some (strip R sg) \<and>
            (\<forall>s sg'. signals w' s = Some sg' \<longrightarrow> R \<notin> getDestination ` set (connectedSlots sg')) \<and>
            (\<forall>x\<in>set (fst (snd (shoot run E args w' u))). fst x \<noteq> R) \<and>
            (\<forall>f. snd (snd (shoot run E args w' u)) \<noteq> Undefined f)) \<and>
         (\<exists>w'. SignalBaseTyped_destroy E w = Inr w' \<and> signals w' E = None \<and> consistent w' \<and>
            receivers w' R = Some (forget E h) \<and>
            (\<forall>r h'. receivers w' r = Some h' \<longrightarrow> E |\<notin>| senders h') \<and>
            (\<exists>w''. HasSlots_destroy R w' = Inr w'' \<and> consistent w'' \<and>
               receivers w'' R = None \<and> signals w'' E = None))"
proof
  from HasSlots_destroy_result [OF ok h] obtain w' where
    w': "HasSlots_destroy R w = Inr w'" "receivers w' = (receivers w)(R := None)"
      "\<forall>s. signals w' s = map_option (strip R) (signals w s)" "consistent w'"
    by blast
  have sgE: "signals w' E = Some (strip R sg)" using w'(3) sg by simp
  have none: "\<forall>s sg'. signals w' s = Some sg' \<longrightarrow> R \<notin> getDestination ` set (connectedSlots sg')"
  proof (intro allI impI)
    fix s sg' assume "signals w' s = Some sg'"
    with w'(3) obtain sg0 where "sg' = strip R sg0" by (cases "signals w s") auto
    then show "R \<notin> getDestination ` set (connectedSlots sg')" using strip_absent by simp
  qed
  have skip: "\<forall>x\<in>set (fst (snd (shoot run E args w' u))). fst x \<noteq> R"
  proof
    fix x assume "x \<in> set (fst (snd (shoot run E args w' u)))"
    from shoot_calls_eligible [OF sgE this] have "x \<in> call ` set (connectedSlots (strip R sg))"
      by (auto simp: eligible_def)
    then show "fst x \<noteq> R" by (auto simp: strip_def call_def getDestination_def)
  qed
  have nofault: "\<forall>f. snd (snd (shoot run E args w' u)) \<noteq> Undefined f"
    using shoot_no_fault [OF sgE consistent_dests_live [OF w'(4) sgE], of run args u] by simp
  from w'(1,2,4) sgE none skip nofault
  show "\<exists>w'. HasSlots_destroy R w = Inr w' \<and> receivers w' R = None \<and> consistent w' \<and>
            signals w' E = Some (strip R sg) \<and>
            (\<forall>s sg'. signals w' s = Some sg' \<longrightarrow> R \<notin> getDestination ` set (connectedSlots sg')) \<and>
            (\<forall>x\<in>set (fst (snd (shoot run E args w' u))). fst x \<noteq> R) \<and>
            (\<forall>f. snd (snd (shoot run E args w' u)) \<noteq> Undefined f)"
    by auto
next
  from SignalBaseTyped_destroy_result [OF ok sg] obtain w' where
    w': "SignalBaseTyped_destroy E w = Inr w'" "signals w' = (signals w)(E := None)"
      "\<forall>r. receivers w' r = map_option (forget E) (receivers w r)" "consistent w'"
    by blast
  have hR: "receivers w' R = Some (forget E h)" using w'(3) h by simp
  have gone: "\<forall>r h'. receivers w' r = Some h' \<longrightarrow> E |\<notin>| senders h'"
  proof (intro allI impI)
    fix r h' assume "receivers w' r = Some h'"
    with w'(3) obtain h0 where "h' = forget E h0" by (cases "receivers w r") auto
    then show "E |\<notin>| senders h'" by (simp add: forget_def)
  qed
  from HasSlots_destroy_result [OF w'(4) hR] obtain w'' where
    w'': "HasSlots_destroy R w' = Inr w''" "receivers w'' = (receivers w')(R := None)"
      "\<forall>s. signals w'' s = map_option (strip R) (signals w' s)" "consistent w''"
    by blast
  have "receivers w'' R = None" "signals w'' E = None"
    using w''(2,3) w'(2) by simp_all
  with w'(1,2,4) hR gone w''(1,4)
  show "\<exists>w'. SignalBaseTyped_destroy E w = Inr w' \<and> signals w' E = None \<and> consistent w' \<and>
            receivers w' R = Some (forget E h) \<and>
            (\<forall>r h'. receivers w' r = Some h' \<longrightarrow> E |\<notin>| senders h') \<and>
            (\<exists>w''. HasSlots_destroy R w' = Inr w'' \<and> consistent w'' \<and>
               receivers w'' R = None \<and> signals w'' E = None)"
    by auto
qed

theorem two_sided_teardown_witness:
  "consistent wired \<and>
   signals wired 1 = Some \<lparr>connectedSlots = [binding (10, 1), binding (11, 2), binding (12, 3)]\<rparr> \<and>
   receivers wired 11 = Some \<lparr>senders = {|1|}, active = True\<rparr> \<and>
   11 \<in> getDestination ` set [binding (10, 1), binding (11, 2), binding (12, 3)] \<and>
   (\<exists>w'. HasSlots_destroy 11 wired = Inr w' \<and> receivers w' 11 = None \<and>
      signals w' 1 = Some \<lparr>connectedSlots = [binding (10, 1), binding (12, 3)]\<rparr> \<and>
      11 \<notin> fst ` set (fst (snd (shoot log_run 1 5 w' [])))) \<and>
   (\<exists>w'. SignalBaseTyped_destroy 1 wired = Inr w' \<and> signals w' 1 = None \<and>
      receivers w' 11 = Some \<lparr>senders = {||}, active = True\<rparr> \<and>
      (\<exists>w''. HasSlots_destroy 11 w' = Inr w'' \<and> receivers w'' 11 = None))"
proof -
  let ?cs = "[binding (10, 1), binding (11, 2), binding (12, 3)]"
  have h: "receivers wired 11 = Some \<lparr>senders = {|1|}, active = True\<rparr>"
    by (simp add: wired_def)
  have conn: "11 \<in> getDestination ` set (connectedSlots \<lparr>connectedSlots = ?cs\<rparr>)"
    by (simp add: binding_def getDestination_def)
  have st: "strip 11 \<lparr>connectedSlots = ?cs\<rparr> = \<lparr>connectedSlots = [binding (10, 1), binding (12, 3)]\<rparr>"
    by (simp add: strip_def binding_def getDestination_def)
  have fg: "forget 1 \<lparr>senders = {|1|}, active = True\<rparr> = \<lparr>senders = {||}, active = True\<rparr>"
    by (simp add: forget_def)
  from two_sided_teardown [OF wired_consistent wired_signal h conn, of log_run 5 "[]"]
  show ?thesis using wired_consistent wired_signal h conn st fg
    by (simp add: image_iff) blast
qed

text \<open>
  C2. Emit order equals connect order. Slots connected to a signal in the order of the
  list \<open>ps\<close> are appended to its bindings in that order, and one emit calls, in the
  order of the binding list, every binding whose receiver is active: the bindings that
  were there before, then \<open>ps\<close>, each once, when the receivers of \<open>ps\<close> are active and no
  slot throws. For a new signal and \<open>ps = [A, B, C]\<close> the calls are \<open>[A, B, C]\<close>; for
  \<open>ps = []\<close> this is the emit of any signal.
\<close>

theorem emit_order_equals_connect_order:
  assumes sg: "signals w s = Some sg"
    and live: "dests_live w (connectedSlots sg)"
    and act: "all_active w (map fst ps)"
    and quiet: "quiet run args"
  shows "\<exists>w' u'. connect_all s ps w = Inr w' \<and>
           signals w' s = Some (sg\<lparr>connectedSlots := connectedSlots sg @ map binding ps\<rparr>) \<and>
           run_all run args (eligible w (connectedSlots sg) @ map binding ps) u = Inr u' \<and>
           shoot run s args w' u = (w', map call (eligible w (connectedSlots sg)) @ ps, Returned u')"
proof -
  from all_active_live [OF act] have "\<forall>r\<in>fst ` set ps. receivers w r \<noteq> None" by simp
  from connect_all_result [OF sg this] obtain w' where
    w': "connect_all s ps w = Inr w'"
      "signals w' = (signals w)(s \<mapsto> sg\<lparr>connectedSlots := connectedSlots sg @ map binding ps\<rparr>)"
      "\<forall>r. receivers w' r =
        (if r \<in> fst ` set ps then map_option (remember s) (receivers w r) else receivers w r)"
    by blast
  let ?cs = "connectedSlots sg @ map binding ps"
  have same: "\<And>r. isActive r w' = isActive r w"
    using isActive_remember [OF w'(3)] .
  have el: "eligible w' ?cs = eligible w (connectedSlots sg) @ map binding ps"
    using eligible_cong [of w' w ?cs, OF same] eligible_all_active [OF act]
    by (simp add: eligible_def)
  have "dests_live w (map binding ps)"
    using all_active_live [OF act] by (auto simp: dests_live_def binding_def getDestination_def)
  with live have "dests_live w ?cs" by (auto simp: dests_live_def)
  then have live': "dests_live w' ?cs"
    by (simp add: dests_live_isActive same)
  from quiet_run_all [OF quiet] obtain u' where
    u': "run_all run args (eligible w (connectedSlots sg) @ map binding ps) u = Inr u'"
    by blast
  have "shoot_loop run args ?cs w' u = (map call (eligible w' ?cs), Returned u')"
    using shoot_loop_returns [OF live'] u' el by simp
  then have "shoot run s args w' u = (w', map call (eligible w (connectedSlots sg)) @ ps, Returned u')"
    using w'(2) el by (simp add: shoot_def call_binding)
  with w'(1,2) u' show ?thesis by auto
qed

theorem emit_order_equals_connect_order_witness:
  "signals three_receivers 1 = Some \<lparr>connectedSlots = []\<rparr> \<and>
   dests_live three_receivers [] \<and>
   all_active three_receivers [10, 11, 12] \<and>
   quiet log_run 5 \<and>
   (\<exists>w'. connect_all 1 [(10, 1), (11, 2), (12, 3)] three_receivers = Inr w' \<and>
      shoot log_run 1 5 w' [] =
        (w', [(10, 1), (11, 2), (12, 3)], Returned [(10, 1, 5), (11, 2, 5), (12, 3, 5)]))"
proof -
  have sg: "signals three_receivers 1 = Some \<lparr>connectedSlots = []\<rparr>"
    by (simp add: three_receivers_def HasSlots_new_def SignalBaseTyped_new_def empty_world_def)
  have live: "dests_live three_receivers (connectedSlots \<lparr>connectedSlots = []\<rparr>)"
    by (simp add: dests_live_def)
  have act: "all_active three_receivers (map fst [(10, 1), (11, 2), (12, 3)])"
    by (simp add: all_active_def isActive_def three_receivers_def HasSlots_new_def
        SignalBaseTyped_new_def empty_world_def)
  have quiet: "quiet log_run (5::nat)"
    by (simp add: quiet_def log_run_def)
  from emit_order_equals_connect_order [OF sg live act quiet, of "[]"]
  show ?thesis using sg act quiet
    by (auto simp: dests_live_def eligible_def binding_def log_run_def)
qed

text \<open>
  C3. Deactivation gates delivery without removing connections. For a live receiver
  \<open>r\<close> and a live signal \<open>s\<close> whose bindings point to live receivers: \<open>setActive(false)\<close>
  changes no signal (the bindings of \<open>r\<close> stay in the list) and nothing of \<open>r\<close> but its
  flag; an emit after it calls no slot of \<open>r\<close> (and, when no slot throws, calls exactly
  the other eligible bindings, in order); \<open>disconnect(r)\<close> after it still removes every
  binding to \<open>r\<close> and, when there was one, the back-reference to \<open>s\<close>; and
  \<open>setActive(true)\<close> makes every binding to \<open>r\<close> eligible again, giving back the very
  store from before the deactivation when \<open>r\<close> was active then.
\<close>

theorem deactivation_gates_delivery:
  assumes h: "receivers w r = Some h"
    and sg: "signals w s = Some sg"
    and live: "dests_live w (connectedSlots sg)"
  shows "\<exists>w1. setActive r False w = Inr w1 \<and>
           signals w1 = signals w \<and> receivers w1 r = Some (h\<lparr>active := False\<rparr>) \<and>
           (\<forall>x\<in>set (fst (snd (shoot run s args w1 u))). fst x \<noteq> r) \<and>
           (quiet run args \<longrightarrow>
              (\<exists>u'. shoot run s args w1 u =
                 (w1, map call (filter (\<lambda>c. getDestination c \<noteq> r) (eligible w (connectedSlots sg))),
                  Returned u'))) \<and>
           (\<exists>w2 h2. disconnect s r w1 = Inr w2 \<and> signals w2 s = Some (strip r sg) \<and>
              receivers w2 r = Some h2 \<and>
              (r \<in> getDestination ` set (connectedSlots sg) \<longrightarrow> s |\<notin>| senders h2)) \<and>
           (\<exists>w3. setActive r True w1 = Inr w3 \<and>
              signals w3 = signals w \<and> receivers w3 r = Some (h\<lparr>active := True\<rparr>) \<and>
              (active h \<longrightarrow> w3 = w) \<and>
              (\<forall>c\<in>set (connectedSlots sg). getDestination c = r \<longrightarrow>
                 c \<in> set (eligible w3 (connectedSlots sg))) \<and>
              (quiet run args \<longrightarrow>
                 (\<exists>u'. shoot run s args w3 u =
                    (w3, map call (eligible w3 (connectedSlots sg)), Returned u'))))"
proof -
  let ?cs = "connectedSlots sg"
  let ?w1 = "w\<lparr>receivers := (receivers w)(r \<mapsto> h\<lparr>active := False\<rparr>)\<rparr>"
  let ?w3 = "?w1\<lparr>receivers := (receivers ?w1)(r \<mapsto> h\<lparr>active := False, active := True\<rparr>)\<rparr>"
  have s1: "setActive r False w = Inr ?w1"
    using setActive_result [OF h] .
  have sg1: "signals ?w1 s = Some sg" using sg by simp
  have h1: "receivers ?w1 r = Some (h\<lparr>active := False\<rparr>)" by simp
  have live1: "dests_live ?w1 ?cs" using dests_live_upd [OF live] .
  have el1: "eligible ?w1 ?cs = filter (\<lambda>c. getDestination c \<noteq> r) (eligible w ?cs)"
    using eligible_deactivated [OF h] .
  have skip: "\<forall>x\<in>set (fst (snd (shoot run s args ?w1 u))). fst x \<noteq> r"
  proof
    fix x assume "x \<in> set (fst (snd (shoot run s args ?w1 u)))"
    from shoot_calls_eligible [OF sg1 this] el1
    show "fst x \<noteq> r" by (auto simp: call_def getDestination_def)
  qed
  have emit1: "quiet run args \<longrightarrow>
      (\<exists>u'. shoot run s args ?w1 u =
         (?w1, map call (filter (\<lambda>c. getDestination c \<noteq> r) (eligible w ?cs)), Returned u'))"
    using shoot_returns [OF sg1 live1, of run args u] el1 by simp
  from disconnect_total [OF sg1 h1] obtain w2 where
    w2: "disconnect s r ?w1 = Inr w2" "signals w2 s = Some (strip r sg)"
      "r \<in> getDestination ` set ?cs \<longrightarrow> receivers w2 r = Some (forget s (h\<lparr>active := False\<rparr>))"
    by blast
  have "\<exists>h2. receivers w2 r = Some h2 \<and> (r \<in> getDestination ` set ?cs \<longrightarrow> s |\<notin>| senders h2)"
  proof (cases "r \<in> getDestination ` set ?cs")
    case True
    with w2(3) show ?thesis by (simp add: forget_def)
  next
    case False
    from disconnect_absent [OF sg1 False] w2(1) have "w2 = ?w1" by simp
    with False show ?thesis by simp
  qed
  with w2 have disc: "\<exists>w2 h2. disconnect s r ?w1 = Inr w2 \<and> signals w2 s = Some (strip r sg) \<and>
      receivers w2 r = Some h2 \<and> (r \<in> getDestination ` set ?cs \<longrightarrow> s |\<notin>| senders h2)"
    by blast
  have s3: "setActive r True ?w1 = Inr ?w3"
    using setActive_result [OF h1] .
  have w3: "?w3 = w\<lparr>receivers := (receivers w)(r \<mapsto> h\<lparr>active := True\<rparr>)\<rparr>" by simp
  have sg3: "signals ?w3 s = Some sg" using sg by simp
  have live3: "dests_live ?w3 ?cs" using dests_live_upd [OF live1] .
  have restored: "active h \<longrightarrow> ?w3 = w"
    using h by (auto simp: fun_upd_idem)
  have el3: "\<forall>c\<in>set ?cs. getDestination c = r \<longrightarrow> c \<in> set (eligible ?w3 ?cs)"
    unfolding w3 eligible_activated by simp
  have emit3: "quiet run args \<longrightarrow>
      (\<exists>u'. shoot run s args ?w3 u = (?w3, map call (eligible ?w3 ?cs), Returned u'))"
    using shoot_returns [OF sg3 live3, of run args u] by blast
  have r3: "receivers ?w3 r = Some (h\<lparr>active := True\<rparr>)" by simp
  have sig3: "signals ?w3 = signals w" by simp
  have sig1: "signals ?w1 = signals w" by simp
  from s1 sig1 h1 skip emit1 disc s3 sig3 r3 restored el3 emit3
  show ?thesis by blast
qed

theorem deactivation_gates_delivery_witness:
  "receivers wired 11 = Some \<lparr>senders = {|1|}, active = True\<rparr> \<and>
   signals wired 1 = Some \<lparr>connectedSlots = [binding (10, 1), binding (11, 2), binding (12, 3)]\<rparr> \<and>
   dests_live wired [binding (10, 1), binding (11, 2), binding (12, 3)] \<and>
   quiet log_run 5 \<and>
   (\<exists>w1. setActive 11 False wired = Inr w1 \<and> signals w1 = signals wired \<and>
      shoot log_run 1 5 w1 [] = (w1, [(10, 1), (12, 3)], Returned [(10, 1, 5), (12, 3, 5)]) \<and>
      (\<exists>w2. disconnect 1 11 w1 = Inr w2 \<and>
         signals w2 1 = Some \<lparr>connectedSlots = [binding (10, 1), binding (12, 3)]\<rparr>) \<and>
      setActive 11 True w1 = Inr wired \<and>
      shoot log_run 1 5 wired [] =
        (wired, [(10, 1), (11, 2), (12, 3)], Returned [(10, 1, 5), (11, 2, 5), (12, 3, 5)]))"
proof -
  let ?cs = "[binding (10, 1), binding (11, 2), binding (12, 3)]"
  have h: "receivers wired 11 = Some \<lparr>senders = {|1|}, active = True\<rparr>"
    by (simp add: wired_def)
  have live: "dests_live wired (connectedSlots \<lparr>connectedSlots = ?cs\<rparr>)"
    using wired_live by simp
  have quiet: "quiet log_run (5::nat)"
    by (simp add: quiet_def log_run_def)
  from deactivation_gates_delivery [OF h wired_signal live, of log_run 5 "[]"] quiet
  obtain w1 w2 u1 u3 where
    r: "setActive 11 False wired = Inr w1" "signals w1 = signals wired"
      "shoot log_run 1 5 w1 [] =
         (w1, map call (filter (\<lambda>c. getDestination c \<noteq> 11) (eligible wired ?cs)), Returned u1)"
      "disconnect 1 11 w1 = Inr w2"
      "signals w2 1 = Some (strip 11 \<lparr>connectedSlots = ?cs\<rparr>)"
      "setActive 11 True w1 = Inr wired"
      "shoot log_run 1 5 wired [] = (wired, map call (eligible wired ?cs), Returned u3)"
    by auto
  have w1: "w1 = wired\<lparr>receivers := (receivers wired)(11 \<mapsto> \<lparr>senders = {|1|}, active = False\<rparr>)\<rparr>"
    using r(1) setActive_result [OF h, of False] by simp
  have u1: "u1 = [(10, 1, 5), (12, 3, 5)]"
    using r(3) unfolding w1
    by (simp add: shoot_def wired_def binding_def isActive_def getDestination_def log_run_def)
  have u3: "u3 = [(10, 1, 5), (11, 2, 5), (12, 3, 5)]"
    using r(7)
    by (simp add: shoot_def wired_def binding_def isActive_def getDestination_def log_run_def)
  have c1: "map call (filter (\<lambda>c. getDestination c \<noteq> 11) (eligible wired ?cs)) = [(10, 1), (12, 3)]"
    by (simp only: wired_eligible) (simp add: binding_def getDestination_def call_def)
  have c3: "map call (eligible wired ?cs) = [(10, 1), (11, 2), (12, 3)]"
    by (simp only: wired_eligible) (simp add: binding_def call_def)
  have st: "strip 11 \<lparr>connectedSlots = ?cs\<rparr> = \<lparr>connectedSlots = [binding (10, 1), binding (12, 3)]\<rparr>"
    by (simp add: strip_def binding_def getDestination_def)
  from r u1 u3 c1 c3 st h wired_signal wired_live quiet show ?thesis
    by auto
qed

text \<open>
  C4. Receiver copy clones inbound connections. The copy constructor of \<open>HasSlots\<close>
  asks every sender of \<open>R1\<close> to duplicate its bindings to \<open>R1\<close> for \<open>R2\<close> and
  records the sender in \<open>R2\<close>; but \<open>Connection::duplicate\<close> makes the pointer of the
  new binding by \<open>reinterpret_cast\<close> from the address of the \<open>HasSlots\<close> base of
  \<open>R2\<close>, so the binding leads to \<open>R2\<close> only when that base is at offset 0 (lemma
  \<open>copy_base_first_clones_inbound\<close>). For receivers with 8 bytes before the base:
  copying the receiver at 100 of \<open>bound_pair\<close> to 200 returns and the copy records
  signal 1, but the binding that signal 1 gains leads to 208, where no receiver is, and
  none leads to 200; an emit on signal 1 then calls the two old bindings and reads the
  flag of a receiver that does not exist, without calling a slot of the copy.
\<close>

theorem receiver_copy_misses_offset_base:
  "\<exists>w'. HasSlots_copy second_base 100 200 bound_pair = Some (Inr w') \<and>
     receivers w' 200 = Some \<lparr>senders = {|1|}, active = True\<rparr> \<and>
     receivers w' 100 = Some \<lparr>senders = {|1|}, active = True\<rparr> \<and>
     receivers w' 208 = None \<and>
     signals w' 1 =
       Some \<lparr>connectedSlots = [binding (100, 7), binding (300, 9), binding (208, 7)]\<rparr> \<and>
     shoot log_run 1 5 w' [] = (w', [(100, 7), (300, 9)], Undefined (DeadReceiver 208))"
proof -
  from bound_pair_copy obtain w' where
    w': "HasSlots_copy second_base 100 200 bound_pair = Some (Inr w')"
      "receivers w' = (receivers bound_pair)(200 \<mapsto> \<lparr>senders = {|1|}, active = True\<rparr>)"
      "signals w' 1 =
         Some \<lparr>connectedSlots = [binding (100, 7), binding (300, 9), binding (208, 7)]\<rparr>"
    by blast
  have r2: "receivers w' 200 = Some \<lparr>senders = {|1|}, active = True\<rparr>"
    and r1: "receivers w' 100 = Some \<lparr>senders = {|1|}, active = True\<rparr>"
    and dead: "receivers w' 208 = None"
    unfolding w'(2) by (simp_all add: bound_pair_def)
  from w'(1,3) r2 r1 dead bound_pair_emit [OF w'(2,3)] show ?thesis by blast
qed

text \<open>
  C5. Emitter copy clones outbound connections. Let the registries agree, \<open>S1\<close> be a live
  signal and \<open>S2\<close> the address of the copy. Copy-constructing \<open>S2\<close> from \<open>S1\<close> succeeds;
  the bindings of \<open>S2\<close> are those of \<open>S1\<close>, in the same order; every receiver they point
  to has \<open>S2\<close> added to its \<open>senders\<close> and no other receiver changes; \<open>S1\<close> and every
  other signal are as before; the registries agree again; and an emit on \<open>S2\<close> makes
  the calls, with the result, that an emit on \<open>S1\<close> would have made in the store before the
  copy, so it calls the slot of every active receiver without \<open>S1\<close> being emitted.
\<close>

theorem emitter_copy_clones_outbound:
  assumes ok: "consistent w"
    and sg: "signals w S1 = Some sg"
    and fresh: "signals w S2 = None"
  shows "\<exists>w'. SignalBaseTyped_copy S1 S2 w = Inr w' \<and>
           signals w' S2 = Some \<lparr>connectedSlots = connectedSlots sg\<rparr> \<and>
           signals w' S1 = Some sg \<and>
           (\<forall>s. s \<noteq> S2 \<longrightarrow> signals w' s = signals w s) \<and>
           (\<forall>c\<in>set (connectedSlots sg).
              \<exists>h. receivers w' (getDestination c) = Some h \<and> S2 |\<in>| senders h) \<and>
           (\<forall>r. receivers w' r =
              (if r \<in> getDestination ` set (connectedSlots sg)
               then map_option (remember S2) (receivers w r) else receivers w r)) \<and>
           consistent w' \<and>
           shoot run S2 args w' u = (w', snd (shoot run S1 args w u))"
proof -
  let ?cs = "connectedSlots sg"
  let ?w0 = "w\<lparr>signals := (signals w)(S2 \<mapsto> \<lparr>connectedSlots = []\<rparr>)\<rparr>"
  have sg0: "signals ?w0 S2 = Some \<lparr>connectedSlots = []\<rparr>" by simp
  have live: "\<forall>c\<in>set ?cs. receivers ?w0 (getDestination c) \<noteq> None"
    using consistent_dests_live [OF ok sg] by (simp add: dests_live_def)
  from SignalBaseTyped_copy_loop_result [OF sg0 live] obtain w' where
    w': "SignalBaseTyped_copy_loop S2 ?cs ?w0 = Inr w'"
      "signals w' = (signals ?w0)(S2 \<mapsto> \<lparr>connectedSlots = []\<rparr>\<lparr>connectedSlots := connectedSlots \<lparr>connectedSlots = []\<rparr> @ ?cs\<rparr>)"
      "\<forall>r. receivers w' r =
        (if r \<in> getDestination ` set ?cs then map_option (remember S2) (receivers ?w0 r)
         else receivers ?w0 r)"
    by blast
  have copy: "SignalBaseTyped_copy S1 S2 w = Inr w'"
    using sg w'(1) by (simp add: SignalBaseTyped_copy_def)
  have sig: "signals w' = (signals w)(S2 \<mapsto> \<lparr>connectedSlots = ?cs\<rparr>)"
    using w'(2) by simp
  have rec: "\<forall>r. receivers w' r =
        (if r \<in> getDestination ` set ?cs then map_option (remember S2) (receivers w r)
         else receivers w r)"
    using w'(3) by simp
  have ne: "S1 \<noteq> S2" using sg fresh by auto
  have s2: "signals w' S2 = Some \<lparr>connectedSlots = ?cs\<rparr>" using sig by simp
  have s1: "signals w' S1 = Some sg" using sig sg ne by simp
  have others: "\<forall>s. s \<noteq> S2 \<longrightarrow> signals w' s = signals w s" using sig by simp
  have ok': "consistent w'"
    using consistent_copy_signal [OF ok sg fresh sig rec] .
  have backrefs: "\<forall>c\<in>set ?cs. \<exists>h. receivers w' (getDestination c) = Some h \<and> S2 |\<in>| senders h"
    using ok' s2 unfolding consistent_def by fastforce
  have same: "\<And>r. isActive r w' = isActive r w"
    using isActive_remember [OF rec] .
  have emit: "shoot run S2 args w' u = (w', snd (shoot run S1 args w u))"
    using s2 sg shoot_loop_cong [of w' w run args ?cs u, OF same] by (simp add: shoot_def)
  from copy s2 s1 others backrefs rec ok' emit show ?thesis by blast
qed

theorem emitter_copy_clones_outbound_witness:
  "consistent wired \<and>
   signals wired 1 = Some \<lparr>connectedSlots = [binding (10, 1), binding (11, 2), binding (12, 3)]\<rparr> \<and>
   signals wired 2 = None \<and>
   (\<exists>w'. SignalBaseTyped_copy 1 2 wired = Inr w' \<and>
      signals w' 2 = Some \<lparr>connectedSlots = [binding (10, 1), binding (11, 2), binding (12, 3)]\<rparr> \<and>
      signals w' 1 = Some \<lparr>connectedSlots = [binding (10, 1), binding (11, 2), binding (12, 3)]\<rparr> \<and>
      receivers w' 10 = Some \<lparr>senders = {|2, 1|}, active = True\<rparr> \<and>
      shoot log_run 2 5 w' [] =
        (w', [(10, 1), (11, 2), (12, 3)], Returned [(10, 1, 5), (11, 2, 5), (12, 3, 5)]))"
proof -
  have fresh: "signals wired 2 = None"
    by (simp add: wired_def)
  have r10: "receivers wired 10 = Some \<lparr>senders = {|1|}, active = True\<rparr>"
    by (simp add: wired_def)
  have d10: "10 \<in> getDestination ` set [binding (10, 1), binding (11, 2), binding (12, 3)]"
    by (simp add: binding_def getDestination_def)
  from emitter_copy_clones_outbound [OF wired_consistent wired_signal fresh, of log_run 5 "[]"]
  obtain w' where
    w': "SignalBaseTyped_copy 1 2 wired = Inr w'"
      "signals w' 2 = Some \<lparr>connectedSlots = [binding (10, 1), binding (11, 2), binding (12, 3)]\<rparr>"
      "signals w' 1 = Some \<lparr>connectedSlots = [binding (10, 1), binding (11, 2), binding (12, 3)]\<rparr>"
      "\<forall>r. receivers w' r =
         (if r \<in> getDestination ` set [binding (10, 1), binding (11, 2), binding (12, 3)]
          then map_option (remember 2) (receivers wired r) else receivers wired r)"
      "shoot log_run 2 5 w' [] = (w', snd (shoot log_run 1 5 wired []))"
    by auto
  from w'(4) d10 r10 have "receivers w' 10 = Some \<lparr>senders = {|2, 1|}, active = True\<rparr>"
    by (simp add: remember_def)
  with w' wired_shoot wired_consistent wired_signal fresh show ?thesis
    by simp
qed

text \<open>
  C6. Slot failure during emit. When the slots of the eligible bindings \<open>pre\<close> return and
  the slot of the next eligible binding \<open>c\<close> throws \<open>e\<close>, the emit ends by throwing that
  same \<open>e\<close>; the calls made are those of \<open>pre\<close>, in order, followed by the one call of
  \<open>c\<close> (no second attempt, and nothing after it is called); and the store after the emit
  is the store before it, so every binding of the signal, the failing one included, is
  still registered.
\<close>

theorem slot_failure_propagates:
  assumes sg: "signals w s = Some sg"
    and live: "dests_live w (connectedSlots sg)"
    and el: "eligible w (connectedSlots sg) = pre @ c # post"
    and before: "run_all run args pre u = Inr u1"
    and throw: "run (object c) (functionPtr c) args u1 = Inl e"
  shows "shoot run s args w u = (w, map call pre @ [call c], Threw e)"
  using shoot_loop_throws [OF live el before throw] sg by (simp add: shoot_def)

theorem slot_failure_propagates_witness:
  "signals wired 1 = Some \<lparr>connectedSlots = [binding (10, 1), binding (11, 2), binding (12, 3)]\<rparr> \<and>
   dests_live wired [binding (10, 1), binding (11, 2), binding (12, 3)] \<and>
   eligible wired [binding (10, 1), binding (11, 2), binding (12, 3)] =
     [binding (10, 1)] @ binding (11, 2) # [binding (12, 3)] \<and>
   run_all throwing_run 5 [binding (10, 1)] [] = Inr [(10, 1, 5)] \<and>
   throwing_run 11 2 5 [(10, 1, 5)] = Inl ''slot failed'' \<and>
   shoot throwing_run 1 5 wired [] = (wired, [(10, 1), (11, 2)], Threw ''slot failed'')"
proof -
  let ?cs = "[binding (10, 1), binding (11, 2), binding (12, 3)]"
  have live: "dests_live wired (connectedSlots \<lparr>connectedSlots = ?cs\<rparr>)"
    using wired_live by simp
  have el: "eligible wired (connectedSlots \<lparr>connectedSlots = ?cs\<rparr>) =
      [binding (10, 1)] @ binding (11, 2) # [binding (12, 3)]"
    using wired_eligible by simp
  have before: "run_all throwing_run 5 [binding (10, 1)] [] = Inr [(10, 1, 5)]"
    by (simp add: throwing_run_def binding_def)
  have throw: "throwing_run (object (binding (11, 2))) (functionPtr (binding (11, 2))) 5
      [(10, 1, 5)] = Inl ''slot failed''"
    by (simp add: throwing_run_def binding_def)
  from slot_failure_propagates [OF wired_signal live el before throw]
  have "shoot throwing_run 1 5 wired [] = (wired, [(10, 1), (11, 2)], Threw ''slot failed'')"
    by (simp add: call_def binding_def)
  with wired_signal wired_live el before throw show ?thesis
    by (simp add: binding_def)
qed

text \<open>
  C7. Notification counting on multi-binding removal. The loops of \<open>disconnect\<close> and
  \<open>disconnectAll\<close> call \<open>signalDisconnect\<close> after each binding they remove;
  \<open>senders\<close> being a set, the calls after the first change nothing. So, in every store,
  \<open>disconnect(r)\<close> does exactly what \<open>disconnect_once\<close> does, which notifies \<open>r\<close> once:
  with a live \<open>r\<close> that has one or several bindings, all of them are removed and the
  signal is erased once from the \<open>senders\<close> of \<open>r\<close>. And when the bindings point to
  live receivers, \<open>disconnectAll\<close> does exactly what \<open>disconnectAll_once\<close> does, which
  notifies each distinct receiver once: no binding is left, and the signal is erased
  from the \<open>senders\<close> of each receiver it was bound to and of no other.
\<close>

theorem removal_notifies_once_net:
  "disconnect s r w = disconnect_once s r w \<and>
   (\<forall>sg h. signals w s = Some sg \<and> receivers w r = Some h \<and>
        r \<in> getDestination ` set (connectedSlots sg) \<longrightarrow>
      disconnect s r w =
        Inr (w\<lparr>receivers := (receivers w)(r \<mapsto> forget s h),
               signals := (signals w)(s \<mapsto> strip r sg)\<rparr>)) \<and>
   (\<forall>sg. signals w s = Some sg \<and> dests_live w (connectedSlots sg) \<longrightarrow>
      SignalBaseTyped_disconnectAll s w = disconnectAll_once s w \<and>
      (\<exists>w'. SignalBaseTyped_disconnectAll s w = Inr w' \<and>
         signals w' = (signals w)(s \<mapsto> sg\<lparr>connectedSlots := []\<rparr>) \<and>
         (\<forall>x. receivers w' x =
            (if x \<in> getDestination ` set (connectedSlots sg)
             then map_option (forget s) (receivers w x) else receivers w x))))"
proof (intro conjI allI impI)
  show "disconnect s r w = disconnect_once s r w" by (rule disconnect_is_once)
next
  fix sg h
  assume "signals w s = Some sg \<and> receivers w r = Some h \<and>
        r \<in> getDestination ` set (connectedSlots sg)"
  then show "disconnect s r w =
        Inr (w\<lparr>receivers := (receivers w)(r \<mapsto> forget s h),
               signals := (signals w)(s \<mapsto> strip r sg)\<rparr>)"
    using disconnect_present by blast
next
  fix sg
  assume a: "signals w s = Some sg \<and> dests_live w (connectedSlots sg)"
  with disconnectAll_result [of w s sg]
  show "SignalBaseTyped_disconnectAll s w = disconnectAll_once s w" by auto
  from a disconnectAll_result [of w s sg]
  show "\<exists>w'. SignalBaseTyped_disconnectAll s w = Inr w' \<and>
         signals w' = (signals w)(s \<mapsto> sg\<lparr>connectedSlots := []\<rparr>) \<and>
         (\<forall>x. receivers w' x =
            (if x \<in> getDestination ` set (connectedSlots sg)
             then map_option (forget s) (receivers w x) else receivers w x))"
    by blast
qed

theorem removal_notifies_once_net_witness:
  "signals doubled 1 = Some \<lparr>connectedSlots = [binding (10, 1), binding (11, 2), binding (10, 3)]\<rparr> \<and>
   receivers doubled 10 = Some \<lparr>senders = {|1|}, active = True\<rparr> \<and>
   10 \<in> getDestination ` set [binding (10, 1), binding (11, 2), binding (10, 3)] \<and>
   dests_live doubled [binding (10, 1), binding (11, 2), binding (10, 3)] \<and>
   disconnect 1 10 doubled = disconnect_once 1 10 doubled \<and>
   (\<exists>w'. disconnect 1 10 doubled = Inr w' \<and>
      signals w' 1 = Some \<lparr>connectedSlots = [binding (11, 2)]\<rparr> \<and>
      receivers w' 10 = Some \<lparr>senders = {||}, active = True\<rparr> \<and>
      receivers w' 11 = Some \<lparr>senders = {|1|}, active = True\<rparr>) \<and>
   SignalBaseTyped_disconnectAll 1 doubled = disconnectAll_once 1 doubled \<and>
   (\<exists>w'. SignalBaseTyped_disconnectAll 1 doubled = Inr w' \<and>
      signals w' 1 = Some \<lparr>connectedSlots = []\<rparr> \<and>
      receivers w' 10 = Some \<lparr>senders = {||}, active = True\<rparr> \<and>
      receivers w' 11 = Some \<lparr>senders = {||}, active = True\<rparr>)"
proof -
  let ?cs = "[binding (10, 1), binding (11, 2), binding (10, 3)]"
  have sg: "signals doubled 1 = Some \<lparr>connectedSlots = ?cs\<rparr>"
    by (simp add: doubled_def)
  have h: "receivers doubled 10 = Some \<lparr>senders = {|1|}, active = True\<rparr>"
    and h11: "receivers doubled 11 = Some \<lparr>senders = {|1|}, active = True\<rparr>"
    by (simp_all add: doubled_def)
  have conn: "10 \<in> getDestination ` set ?cs" and conn11: "11 \<in> getDestination ` set ?cs"
    by (simp_all add: binding_def getDestination_def)
  have live: "dests_live doubled ?cs"
    by (simp add: dests_live_def doubled_def binding_def getDestination_def)
  have st: "strip 10 \<lparr>connectedSlots = ?cs\<rparr> = \<lparr>connectedSlots = [binding (11, 2)]\<rparr>"
    by (simp add: strip_def binding_def getDestination_def)
  have fg: "forget 1 \<lparr>senders = {|1|}, active = True\<rparr> = \<lparr>senders = {||}, active = True\<rparr>"
    by (simp add: forget_def)
  have conn': "10 \<in> getDestination ` set (connectedSlots \<lparr>connectedSlots = ?cs\<rparr>)"
    using conn by simp
  have live': "dests_live doubled (connectedSlots \<lparr>connectedSlots = ?cs\<rparr>)"
    using live by simp
  note t = removal_notifies_once_net [of 1 10 doubled]
  note t1 = t [THEN conjunct1]
  note t2 = t [THEN conjunct2, THEN conjunct1, rule_format, OF conjI [OF sg conjI [OF h conn']]]
  note t3 = t [THEN conjunct2, THEN conjunct2, rule_format, OF conjI [OF sg live']]
  have a: "disconnect 1 10 doubled = disconnect_once 1 10 doubled" by (rule t1)
  have b: "\<exists>w'. disconnect 1 10 doubled = Inr w' \<and>
      signals w' 1 = Some \<lparr>connectedSlots = [binding (11, 2)]\<rparr> \<and>
      receivers w' 10 = Some \<lparr>senders = {||}, active = True\<rparr> \<and>
      receivers w' 11 = Some \<lparr>senders = {|1|}, active = True\<rparr>"
    unfolding t2 st fg using h11 by simp
  have c: "SignalBaseTyped_disconnectAll 1 doubled = disconnectAll_once 1 doubled"
    by (rule t3 [THEN conjunct1])
  from t3 [THEN conjunct2] obtain w' where
    w': "SignalBaseTyped_disconnectAll 1 doubled = Inr w'"
      "signals w' = (signals doubled)(1 \<mapsto> \<lparr>connectedSlots = ?cs\<rparr>\<lparr>connectedSlots := []\<rparr>)"
      "\<forall>x. receivers w' x =
         (if x \<in> getDestination ` set (connectedSlots \<lparr>connectedSlots = ?cs\<rparr>)
          then map_option (forget 1) (receivers doubled x) else receivers doubled x)"
    by blast
  from w'(3) [rule_format, of 10] w'(3) [rule_format, of 11] conn conn11 h h11 fg
  have "receivers w' 10 = Some \<lparr>senders = {||}, active = True\<rparr>"
    "receivers w' 11 = Some \<lparr>senders = {||}, active = True\<rparr>"
    by simp_all
  with w'(1,2) have d: "\<exists>w'. SignalBaseTyped_disconnectAll 1 doubled = Inr w' \<and>
      signals w' 1 = Some \<lparr>connectedSlots = []\<rparr> \<and>
      receivers w' 10 = Some \<lparr>senders = {||}, active = True\<rparr> \<and>
      receivers w' 11 = Some \<lparr>senders = {||}, active = True\<rparr>"
    by simp
  from sg h conn live a b c d show ?thesis by blast
qed

text \<open>
  C8. Duplicate connections are not de-duplicated. Connecting the same receiver \<open>r\<close> and
  member function \<open>f\<close> twice to one signal appends two bindings, and one emit (the
  receiver active, no slot throwing) calls \<open>f\<close> on \<open>r\<close> once for each of them, after the
  calls of the bindings that were there before: two calls more than those bindings
  make, exactly two on a signal that had none.
\<close>

theorem duplicate_connections_deliver_twice:
  assumes sg: "signals w s = Some sg"
    and live: "dests_live w (connectedSlots sg)"
    and act: "isActive r w = Inr True"
    and quiet: "quiet run args"
  shows "\<exists>w1 w2 u'. connect s r f w = Inr w1 \<and> connect s r f w1 = Inr w2 \<and>
           signals w2 s =
             Some (sg\<lparr>connectedSlots := connectedSlots sg @ [binding (r, f), binding (r, f)]\<rparr>) \<and>
           shoot run s args w2 u =
             (w2, map call (eligible w (connectedSlots sg)) @ [(r, f), (r, f)], Returned u') \<and>
           count_list (fst (snd (shoot run s args w2 u))) (r, f) =
             count_list (map call (eligible w (connectedSlots sg))) (r, f) + 2"
proof -
  let ?ps = "[(r, f), (r, f)]"
  let ?cs = "connectedSlots sg @ map binding ?ps"
  from act obtain h where h: "receivers w r = Some h" and ah: "active h"
    by (auto simp: isActive_def split: option.splits)
  have act2: "all_active w (map fst ?ps)"
    using act by (simp add: all_active_def)
  let ?w1 = "w\<lparr>signals := (signals w)(s \<mapsto> sg\<lparr>connectedSlots := connectedSlots sg @ [binding (r, f)]\<rparr>),
              receivers := (receivers w)(r \<mapsto> remember s h)\<rparr>"
  have c1: "connect s r f w = Inr ?w1"
    using connect_result [OF sg h] .
  from all_active_live [OF act2] have "\<forall>x\<in>fst ` set ?ps. receivers w x \<noteq> None" by simp
  from connect_all_result [OF sg this] obtain w2 where
    w2: "connect_all s ?ps w = Inr w2"
      "signals w2 = (signals w)(s \<mapsto> sg\<lparr>connectedSlots := ?cs\<rparr>)"
      "\<forall>x. receivers w2 x =
        (if x \<in> fst ` set ?ps then map_option (remember s) (receivers w x) else receivers w x)"
    by blast
  have c2: "connect s r f ?w1 = Inr w2"
    using w2(1) c1 by (simp only: connect_twice_unfold sum.case)
  have same: "\<And>x. isActive x w2 = isActive x w"
    using isActive_remember [OF w2(3)] .
  have el: "eligible w2 ?cs = eligible w (connectedSlots sg) @ map binding ?ps"
    using eligible_cong [of w2 w ?cs, OF same] eligible_all_active [OF act2]
    by (simp add: eligible_def)
  have "dests_live w (map binding ?ps)"
    using h by (simp add: dests_live_def binding_def getDestination_def)
  with live have "dests_live w ?cs" by (auto simp: dests_live_def)
  then have live2: "dests_live w2 ?cs"
    by (simp add: dests_live_isActive same)
  from quiet_run_all [OF quiet] obtain u' where
    u': "run_all run args (eligible w2 ?cs) u = Inr u'"
    by blast
  have "shoot_loop run args ?cs w2 u = (map call (eligible w2 ?cs), Returned u')"
    using shoot_loop_returns [OF live2 u'] .
  then have sh: "shoot run s args w2 u =
      (w2, map call (eligible w (connectedSlots sg)) @ [(r, f), (r, f)], Returned u')"
    using w2(2) el by (simp add: shoot_def call_def binding_def)
  have sg2: "signals w2 s =
      Some (sg\<lparr>connectedSlots := connectedSlots sg @ [binding (r, f), binding (r, f)]\<rparr>)"
    using w2(2) by simp
  from c1 c2 sg2 sh show ?thesis by auto
qed

theorem duplicate_connections_deliver_twice_witness:
  "signals three_receivers 1 = Some \<lparr>connectedSlots = []\<rparr> \<and>
   dests_live three_receivers [] \<and>
   isActive 10 three_receivers = Inr True \<and>
   quiet log_run 5 \<and>
   (\<exists>w1 w2. connect 1 10 7 three_receivers = Inr w1 \<and> connect 1 10 7 w1 = Inr w2 \<and>
      signals w2 1 = Some \<lparr>connectedSlots = [binding (10, 7), binding (10, 7)]\<rparr> \<and>
      shoot log_run 1 5 w2 [] = (w2, [(10, 7), (10, 7)], Returned [(10, 7, 5), (10, 7, 5)]) \<and>
      count_list (fst (snd (shoot log_run 1 5 w2 []))) (10, 7) = 2)"
proof -
  have sg: "signals three_receivers 1 = Some \<lparr>connectedSlots = []\<rparr>"
    by (simp add: three_receivers_def HasSlots_new_def SignalBaseTyped_new_def empty_world_def)
  have live: "dests_live three_receivers (connectedSlots \<lparr>connectedSlots = []\<rparr>)"
    by (simp add: dests_live_def)
  have act: "isActive 10 three_receivers = Inr True"
    by (simp add: isActive_def three_receivers_def HasSlots_new_def SignalBaseTyped_new_def
        empty_world_def)
  have quiet: "quiet log_run (5::nat)"
    by (simp add: quiet_def log_run_def)
  from duplicate_connections_deliver_twice [OF sg live act quiet, of 7 "[]"]
  obtain w1 w2 u' where
    r: "connect 1 10 7 three_receivers = Inr w1" "connect 1 10 7 w1 = Inr w2"
      "signals w2 1 = Some \<lparr>connectedSlots = [binding (10, 7), binding (10, 7)]\<rparr>"
      "shoot log_run 1 5 w2 [] = (w2, [(10, 7), (10, 7)], Returned u')"
    by (auto simp: eligible_def)
  from r(3,4) have "u' = [(10, 7, 5), (10, 7, 5)]"
    by (simp add: shoot_def binding_def isActive_def getDestination_def log_run_def
        split: option.splits if_splits)
  with r sg act quiet show ?thesis
    by (auto simp: dests_live_def)
qed

text \<open>
  C9. Benign no-ops and idempotence. For a live signal: \<open>disconnect\<close> of a receiver that
  no binding of the signal points to returns the store as it was (the bindings and the
  receiver's \<open>senders\<close> are unchanged); an emit on a signal with no binding calls nothing,
  returns normally and leaves the store as it was; whenever a first \<open>disconnect(r)\<close> returns,
  a second one returns the store it was given; and the first one does return when every
  binding of the signal points to a live receiver.
\<close>

theorem benign_no_ops:
  assumes sg: "signals w s = Some sg"
  shows "(r \<notin> getDestination ` set (connectedSlots sg) \<longrightarrow> disconnect s r w = Inr w) \<and>
         (connectedSlots sg = [] \<longrightarrow> shoot run s args w u = (w, [], Returned u)) \<and>
         (\<forall>w1. disconnect s r w = Inr w1 \<longrightarrow> disconnect s r w1 = Inr w1) \<and>
         (dests_live w (connectedSlots sg) \<longrightarrow> (\<exists>w1. disconnect s r w = Inr w1))"
proof (intro conjI impI allI)
  assume "r \<notin> getDestination ` set (connectedSlots sg)"
  then show "disconnect s r w = Inr w" using disconnect_absent [OF sg] by simp
next
  assume "connectedSlots sg = []"
  then show "shoot run s args w u = (w, [], Returned u)" using shoot_empty [OF sg] by simp
next
  fix w1 assume first: "disconnect s r w = Inr w1"
  show "disconnect s r w1 = Inr w1"
  proof (cases "r \<in> getDestination ` set (connectedSlots sg)")
    case False
    with first disconnect_absent [OF sg, of r] show ?thesis by simp
  next
    case True
    show ?thesis
    proof (cases "receivers w r")
      case None
      from disconnect_dead [OF sg None True] first show ?thesis by simp
    next
      case (Some h)
      from disconnect_present [OF sg Some True] first
      have w1: "w1 = w\<lparr>receivers := (receivers w)(r \<mapsto> forget s h),
                       signals := (signals w)(s \<mapsto> strip r sg)\<rparr>"
        by simp
      then have "signals w1 s = Some (strip r sg)" by simp
      from disconnect_absent [OF this strip_absent] show ?thesis .
    qed
  qed
next
  assume live: "dests_live w (connectedSlots sg)"
  show "\<exists>w1. disconnect s r w = Inr w1"
  proof (cases "r \<in> getDestination ` set (connectedSlots sg)")
    case False
    with disconnect_absent [OF sg, of r] show ?thesis by simp
  next
    case True
    with live obtain h where "receivers w r = Some h"
      by (auto simp: dests_live_def)
    from disconnect_present [OF sg this True] show ?thesis by simp
  qed
qed

theorem benign_no_ops_witness:
  "signals wired 1 = Some \<lparr>connectedSlots = [binding (10, 1), binding (11, 2), binding (12, 3)]\<rparr> \<and>
   signals three_receivers 1 = Some \<lparr>connectedSlots = []\<rparr> \<and>
   dests_live wired [binding (10, 1), binding (11, 2), binding (12, 3)] \<and>
   disconnect 1 13 wired = Inr wired \<and>
   shoot log_run 1 5 three_receivers [] = (three_receivers, [], Returned []) \<and>
   (\<exists>w1. disconnect 1 10 wired = Inr w1 \<and> disconnect 1 10 w1 = Inr w1)"
proof -
  have sg0: "signals three_receivers 1 = Some \<lparr>connectedSlots = []\<rparr>"
    by (simp add: three_receivers_def HasSlots_new_def SignalBaseTyped_new_def empty_world_def)
  have absent: "13 \<notin> getDestination `
      set (connectedSlots \<lparr>connectedSlots = [binding (10, 1), binding (11, 2), binding (12, 3)]\<rparr>)"
    by (simp add: binding_def getDestination_def)
  have a: "disconnect 1 13 wired = Inr wired"
    using benign_no_ops [OF wired_signal, of 13 log_run 5 "[]"] absent by simp
  have b: "shoot log_run 1 5 three_receivers [] = (three_receivers, [], Returned [])"
    using benign_no_ops [OF sg0, of 13 log_run 5 "[]"] by simp
  have c: "\<exists>w1. disconnect 1 10 wired = Inr w1 \<and> disconnect 1 10 w1 = Inr w1"
    using benign_no_ops [OF wired_signal, of 10 log_run 5 "[]"] wired_live by auto
  from a b c sg0 wired_signal wired_live show ?thesis by simp
qed

text \<open>
  C10. Placement of the duplicated bindings after a receiver copy. \<open>duplicateSlot\<close>
  appends the copies at the end of the list and leaves the bindings from before in
  their positions (lemma \<open>duplicateSlot_loop_result\<close>, for every layout), and with the
  \<open>HasSlots\<close> base at offset 0 the slots of \<open>R2\<close> fire after all the calls of the
  bindings from before (lemma \<open>copy_base_first_appends_last\<close>). For receivers with
  8 bytes before the base the appended binding does not lead to \<open>R2\<close>: after copying
  the receiver at 100 of \<open>bound_pair\<close> to 200, the first two bindings of signal 1 are
  the bindings from before and the one binding after them leads to 208; an emit on signal
  1 calls no slot of the receiver at 200 and ends reading a receiver that does not
  exist.
\<close>

theorem appended_binding_misses_copy:
  "\<exists>w' sg'. HasSlots_copy second_base 100 200 bound_pair = Some (Inr w') \<and>
     signals w' 1 = Some sg' \<and>
     take 2 (connectedSlots sg') = [binding (100, 7), binding (300, 9)] \<and>
     map getDestination (drop 2 (connectedSlots sg')) = [208] \<and>
     200 \<notin> fst ` set (fst (snd (shoot log_run 1 5 w' []))) \<and>
     snd (snd (shoot log_run 1 5 w' [])) = Undefined (DeadReceiver 208)"
proof -
  let ?sg' = "\<lparr>connectedSlots = [binding (100, 7), binding (300, 9), binding (208, 7)]\<rparr>"
  from bound_pair_copy obtain w' where
    w': "HasSlots_copy second_base 100 200 bound_pair = Some (Inr w')"
      "receivers w' = (receivers bound_pair)(200 \<mapsto> \<lparr>senders = {|1|}, active = True\<rparr>)"
      "signals w' 1 = Some ?sg'"
    by blast
  have tk: "take 2 (connectedSlots ?sg') = [binding (100, 7), binding (300, 9)]"
    by simp
  have dr: "map getDestination (drop 2 (connectedSlots ?sg')) = [208]"
    by (simp add: binding_def getDestination_def)
  have sh: "shoot log_run 1 5 w' [] = (w', [(100, 7), (300, 9)], Undefined (DeadReceiver 208))"
    using bound_pair_emit [OF w'(2,3)] .
  have calls: "200 \<notin> fst ` set (fst (snd (shoot log_run 1 5 w' [])))"
    unfolding sh by simp
  have res: "snd (snd (shoot log_run 1 5 w' [])) = Undefined (DeadReceiver 208)"
    unfolding sh by simp
  show ?thesis
  proof (intro exI conjI)
    show "HasSlots_copy second_base 100 200 bound_pair = Some (Inr w')" by (rule w'(1))
    show "signals w' 1 = Some ?sg'" by (rule w'(3))
    show "take 2 (connectedSlots ?sg') = [binding (100, 7), binding (300, 9)]" by (rule tk)
    show "map getDestination (drop 2 (connectedSlots ?sg')) = [208]" by (rule dr)
    show "200 \<notin> fst ` set (fst (snd (shoot log_run 1 5 w' [])))" by (rule calls)
    show "snd (snd (shoot log_run 1 5 w' [])) = Undefined (DeadReceiver 208)" by (rule res)
  qed
qed
end
